theory Spec2Isabelle
  imports Main "HOL-Library.Word" "HOL-Library.Char_ord" "HOL-Library.List_Lexorder"
begin

section \<open>BuildBloatBuster: scanner, size calculator and quarantine\<close>

text \<open>
  A shallow embedding of the Go packages \<^verbatim>\<open>internal/scan\<close>, \<^verbatim>\<open>internal/size\<close>,
  \<^verbatim>\<open>internal/erase\<close> and of \<^verbatim>\<open>cmd/restore.go\<close>. Go strings are byte strings
  (\<^typ>\<open>string\<close>), \<^verbatim>\<open>int64\<close> is \<^typ>\<open>64 word\<close>, a Go \<^verbatim>\<open>map[string]struct{}\<close> is the
  list of its keys, and every error return is a value.
\<close>

subsection \<open>Strings and paths (Go standard library, Unix)\<close>

definition filepath_Separator :: char where
  "filepath_Separator = CHR ''/''"

text \<open>\<^verbatim>\<open>strings.HasPrefix(s, prefix)\<close>:
  \<^verbatim>\<open>len(s) >= len(prefix) && s[:len(prefix)] == prefix\<close>.\<close>

definition strings_HasPrefix :: "string \<Rightarrow> string \<Rightarrow> bool" where
  "strings_HasPrefix s pre = (length pre \<le> length s \<and> take (length pre) s = pre)"

text \<open>\<^verbatim>\<open>strings.HasSuffix(s, suffix)\<close>.\<close>

definition strings_HasSuffix :: "string \<Rightarrow> string \<Rightarrow> bool" where
  "strings_HasSuffix s suf =
     (length suf \<le> length s \<and> drop (length s - length suf) s = suf)"

text \<open>\<^verbatim>\<open>strings.Split(s, "/")\<close> and \<^verbatim>\<open>strings.Join(elems, "/")\<close>.\<close>

fun split_sep :: "string \<Rightarrow> string list" where
  "split_sep [] = [[]]"
| "split_sep (c # cs) =
     (if c = filepath_Separator then [] # split_sep cs
      else (case split_sep cs of w # ws \<Rightarrow> (c # w) # ws | [] \<Rightarrow> [[c]]))"

fun join_sep :: "string list \<Rightarrow> string" where
  "join_sep [] = []"
| "join_sep [x] = x"
| "join_sep (x # y # ys) = x @ filepath_Separator # join_sep (y # ys)"

text \<open>\<^verbatim>\<open>strings.Count(s, "/")\<close>.\<close>

definition count_sep :: "string \<Rightarrow> nat" where
  "count_sep s = length (filter (\<lambda>c. c = filepath_Separator) s)"

text \<open>
  \<^verbatim>\<open>filepath.Clean\<close>: empty and \<^verbatim>\<open>.\<close> elements are dropped, an inner \<^verbatim>\<open>..\<close> removes the
  element before it, a \<^verbatim>\<open>..\<close> at the start of a rooted path is dropped, and the empty
  result is \<^verbatim>\<open>.\<close>.
\<close>

definition clean_step :: "bool \<Rightarrow> string list \<Rightarrow> string \<Rightarrow> string list" where
  "clean_step rooted out c =
     (if c = [] \<or> c = ''.'' then out
      else if c = ''..'' then
        (if out \<noteq> [] \<and> last out \<noteq> ''..'' then butlast out
         else if rooted then out else out @ [''..''])
      else out @ [c])"

definition is_rooted :: "string \<Rightarrow> bool" where
  "is_rooted p = (case p of [] \<Rightarrow> False | c # _ \<Rightarrow> c = filepath_Separator)"

definition filepath_Clean :: "string \<Rightarrow> string" where
  "filepath_Clean p =
     (let body = join_sep (foldl (clean_step (is_rooted p)) [] (split_sep p))
      in if is_rooted p then filepath_Separator # body
         else if body = [] then ''.'' else body)"

text \<open>
  \<^verbatim>\<open>filepath.Join\<close>: leading empty elements are skipped, the rest is joined with the
  separator and cleaned; all elements empty gives the empty string.
\<close>

definition filepath_Join :: "string list \<Rightarrow> string" where
  "filepath_Join elems =
     (case dropWhile (\<lambda>e. e = []) elems of [] \<Rightarrow> [] | es \<Rightarrow> filepath_Clean (join_sep es))"

text \<open>
  \<^verbatim>\<open>filepath.Base\<close>: the last element of the path, after trailing separators are
  removed; \<^verbatim>\<open>.\<close> for the empty path and the separator for a path of separators only.
\<close>

definition filepath_Base :: "string \<Rightarrow> string" where
  "filepath_Base p =
     (if p = [] then ''.''
      else let q = rev (dropWhile (\<lambda>c. c = filepath_Separator) (rev p));
               b = rev (takeWhile (\<lambda>c. c \<noteq> filepath_Separator) (rev q))
           in if b = [] then [filepath_Separator] else b)"

text \<open>
  \<^verbatim>\<open>filepath.Rel\<close>: both paths are cleaned; equal paths give \<^verbatim>\<open>.\<close>; a rooted and an
  unrooted path cannot be related; the common leading elements are dropped, each
  remaining element of the base becomes \<^verbatim>\<open>..\<close>, and the rest of the target follows.
  \<open>None\<close> is the error return.
\<close>

fun strip_common :: "string list \<Rightarrow> string list \<Rightarrow> string list \<times> string list" where
  "strip_common (b # bs) (t # ts) = (if b = t then strip_common bs ts else (b # bs, t # ts))"
| "strip_common bs ts = (bs, ts)"

definition path_elems :: "string \<Rightarrow> string list" where
  "path_elems p = filter (\<lambda>e. e \<noteq> []) (split_sep p)"

definition filepath_Rel :: "string \<Rightarrow> string \<Rightarrow> string option" where
  "filepath_Rel basepath targpath =
     (let base = filepath_Clean basepath; targ = filepath_Clean targpath
      in if targ = base then Some ''.''
         else let base1 = (if base = ''.'' then [] else base)
           in if is_rooted base1 \<noteq> is_rooted targ then None
              else (case strip_common (path_elems base1) (path_elems targ) of
                (b, t) \<Rightarrow>
                  if b \<noteq> [] \<and> hd b = ''..'' then None
                  else Some (join_sep (replicate (length b) ''..'' @ t))))"

subsection \<open>Errors\<close>

text \<open>
  The operating-system errors the code tells apart: \<^verbatim>\<open>os.IsPermission\<close>,
  \<^verbatim>\<open>os.IsNotExist\<close>, and everything else.
\<close>

datatype os_error =
  EACCES | ENOENT | EEXIST | ENOTDIR | EISDIR | ENOTEMPTY | EINVAL | EXDEV | EBUSY | EIO

definition os_IsPermission :: "os_error \<Rightarrow> bool" where
  "os_IsPermission e = (e = EACCES)"

definition os_IsNotExist :: "os_error \<Rightarrow> bool" where
  "os_IsNotExist e = (e = ENOENT)"

subsection \<open>Time\<close>

text \<open>
  A \<^verbatim>\<open>time.Time\<close> by its civil fields, which are what \<^verbatim>\<open>Format\<close> reads. The zero
  value is January 1, year 1, 00:00:00.
\<close>

record time =
  year :: nat
  month :: nat
  day :: nat
  hour :: nat
  minute :: nat
  second :: nat
  nanosecond :: nat

definition zero_time :: time where
  "zero_time = \<lparr>year = 1, month = 1, day = 1, hour = 0, minute = 0, second = 0,
     nanosecond = 0\<rparr>"

subsection \<open>Configuration and candidates\<close>

record Config =
  ScanPaths :: "string list"
  IncludeNames :: "string list"
  ExcludeNames :: "string list"
  ExcludePaths :: "string list"
  MinSizeMB :: int
  MaxDepth :: int
  FollowSymlinks :: bool
  Concurrency :: int
  Delete_Mode :: string
  Delete_QuarantineDir :: string
  Delete_RetentionDays :: int

text \<open>
  \<^verbatim>\<open>config.GetDefaults\<close>; the home directory (\<^verbatim>\<open>os.UserHomeDir\<close>, empty on error) and
  \<^verbatim>\<open>runtime.NumCPU\<close> are parameters.
\<close>

definition getDefaultExcludePaths :: "string \<Rightarrow> string list" where
  "getDefaultExcludePaths homeDir =
     [''/Applications'', ''/Library'', ''/System'', ''/usr'', ''/bin'', ''/sbin'', ''/opt'',
      ''/dev'', ''/Volumes'', ''/private'', ''/etc'', ''/var'', ''/tmp'', ''/cores'']
     @ (if homeDir \<noteq> [] then
          [filepath_Join [homeDir, ''.cache''], filepath_Join [homeDir, ''Library''],
           filepath_Join [homeDir, ''.Trash''], filepath_Join [homeDir, ''Applications'']]
        else [])"

definition GetDefaults :: "string \<Rightarrow> int \<Rightarrow> Config" where
  "GetDefaults homeDir numCPU =
     \<lparr>ScanPaths = [''.''],
      IncludeNames = [''node_modules'', ''.venv'', ''venv'', ''.tox'', ''.pytest_cache'',
        ''__pycache__'', ''.mypy_cache'', ''.ruff_cache'', ''.parcel-cache'', ''.next'', ''.nuxt'',
        ''.svelte-kit'', ''.turbo'', ''.cache'', ''dist'', ''build'', ''out'', ''.gradle'',
        ''target'', ''.terraform'', ''.serverless'', ''Pods'', ''Carthage/Build'',
        ''vendor/bundle'', ''vendor''],
      ExcludeNames = [''src'', ''lib'', ''source'', ''Sources'', ''include''],
      ExcludePaths = getDefaultExcludePaths homeDir,
      MinSizeMB = 10,
      MaxDepth = 8,
      FollowSymlinks = False,
      Concurrency = numCPU * 2,
      Delete_Mode = ''quarantine'',
      Delete_QuarantineDir = filepath_Join [homeDir, ''.cache'', ''BuildBloatBuster'', ''trash''],
      Delete_RetentionDays = 14\<rparr>"

record Candidate =
  Path :: string
  SizeBytes :: "64 word"
  Reason :: string
  NewestMTime :: time

text \<open>The zero value of the struct, which \<^verbatim>\<open>make([]scan.Candidate, n)\<close> fills a slice with.\<close>

definition zero_Candidate :: Candidate where
  "zero_Candidate = \<lparr>Path = [], SizeBytes = 0, Reason = [], NewestMTime = zero_time\<rparr>"

subsection \<open>Scanner construction and path exclusion\<close>

text \<open>
  The three lookup maps of the scanner are sets of strings; each is the list of its keys,
  inserted without duplicates. Go ranges over a map in an unspecified order: the loop of
  \<^verbatim>\<open>isPathExcluded\<close> runs over the key list in the order it happens to have.
\<close>

record Scanner =
  config :: Config
  includeMap :: "string list"
  excludeMap :: "string list"
  excludePaths :: "string list"

definition map_add_keys :: "string list \<Rightarrow> string list \<Rightarrow> string list" where
  "map_add_keys m names = foldl (\<lambda>acc n. List.insert n acc) m names"

text \<open>
  \<^verbatim>\<open>filepath.Abs\<close> depends on the working directory and may fail; it is a parameter
  \<open>absf\<close> of the model.
\<close>

definition add_exclude_path ::
  "(string \<Rightarrow> os_error + string) \<Rightarrow> string list \<Rightarrow> string \<Rightarrow> string list" where
  "add_exclude_path absf m p =
     (let m1 = (case absf p of Inr absPath \<Rightarrow> List.insert absPath m | Inl _ \<Rightarrow> m)
      in List.insert p m1)"

definition NewScanner :: "(string \<Rightarrow> os_error + string) \<Rightarrow> Config \<Rightarrow> Scanner" where
  "NewScanner absf cfg =
     \<lparr>config = cfg,
      includeMap = map_add_keys [] (IncludeNames cfg),
      excludeMap = map_add_keys [] (ExcludeNames cfg),
      excludePaths = foldl (add_exclude_path absf) [] (ExcludePaths cfg)\<rparr>"

text \<open>The \<^verbatim>\<open>for excludePath := range s.excludePaths\<close> loop, returning at the first hit.\<close>

fun excluded_under :: "string list \<Rightarrow> string \<Rightarrow> bool" where
  "excluded_under [] path = False"
| "excluded_under (excludePath # rest) path =
     (if strings_HasPrefix path (excludePath @ [filepath_Separator]) then True
      else excluded_under rest path)"

definition isPathExcluded :: "Scanner \<Rightarrow> string \<Rightarrow> bool" where
  "isPathExcluded s path =
     (if path \<in> set (excludePaths s) then True
      else excluded_under (excludePaths s) path)"

definition isVersionControlDir :: "string \<Rightarrow> bool" where
  "isVersionControlDir dirName =
     (dirName = ''.git'' \<or> dirName = ''.svn'' \<or> dirName = ''.hg'' \<or> dirName = ''.bzr'')"

subsection \<open>Walking a directory tree: \<^verbatim>\<open>filepath.WalkDir\<close>\<close>

text \<open>
  What a walk finds below a path: a non-directory (a regular file, a symbolic link, ...)
  or a directory with the entries \<^verbatim>\<open>os.ReadDir\<close> returns for it, possibly together with an
  error. Each node carries the result of \<^verbatim>\<open>d.Info()\<close>.
\<close>

record FileInfo =
  Size :: "64 word"
  ModTime :: time
  ModeSymlink :: bool

datatype dnode =
  FileN "os_error + FileInfo"
| DirN "os_error + FileInfo" "(string \<times> dnode) list" "os_error option"

fun is_dir :: "dnode \<Rightarrow> bool" where
  "is_dir (FileN info) = False"
| "is_dir (DirN info entries rerr) = True"

fun node_info :: "dnode \<Rightarrow> os_error + FileInfo" where
  "node_info (FileN info) = info"
| "node_info (DirN info entries rerr) = info"

text \<open>
  The three ways \<^verbatim>\<open>WalkDir\<close> calls its function: \<^verbatim>\<open>fn(path, d, nil)\<close> on reaching an
  entry, \<^verbatim>\<open>fn(path, d, err)\<close> when reading the directory \<open>d\<close> failed, and
  \<^verbatim>\<open>fn(root, nil, err)\<close> when the root could not be examined. The function returns
  \<^verbatim>\<open>nil\<close>, \<^verbatim>\<open>filepath.SkipDir\<close> or another error.
\<close>

datatype walk_call =
  Entry string dnode
| ReadDirFailed string dnode os_error
| LstatFailed os_error

datatype walk_ret = WNil | WSkipDir | WErr os_error

type_synonym 's WalkDirFunc = "string \<Rightarrow> walk_call \<Rightarrow> 's \<Rightarrow> 's \<times> walk_ret"

text \<open>
  \<^verbatim>\<open>walkDir\<close> of the standard library, with the state of the callback passed along. A
  \<^verbatim>\<open>SkipDir\<close> returned for a directory skips it; returned for anything else it ends the
  loop over the directory that holds the entry.
\<close>

fun walkDir :: "'s WalkDirFunc \<Rightarrow> string \<Rightarrow> string \<Rightarrow> dnode \<Rightarrow> 's \<Rightarrow> 's \<times> walk_ret"
and walkEntries :: "'s WalkDirFunc \<Rightarrow> string \<Rightarrow> (string \<times> dnode) list \<Rightarrow> 's \<Rightarrow> 's \<times> walk_ret" where
  "walkDir fn path name (FileN info) s = fn path (Entry name (FileN info)) s"
| "walkDir fn path name (DirN info entries rerr) s =
     (case fn path (Entry name (DirN info entries rerr)) s of
        (s1, WSkipDir) \<Rightarrow> (s1, WNil)
      | (s1, WErr e) \<Rightarrow> (s1, WErr e)
      | (s1, WNil) \<Rightarrow>
          (case (case rerr of
                   None \<Rightarrow> (s1, WNil)
                 | Some e \<Rightarrow> fn path (ReadDirFailed name (DirN info entries rerr) e) s1) of
             (s2, WSkipDir) \<Rightarrow> (s2, WNil)
           | (s2, WErr e) \<Rightarrow> (s2, WErr e)
           | (s2, WNil) \<Rightarrow> walkEntries fn path entries s2))"
| "walkEntries fn path [] s = (s, WNil)"
| "walkEntries fn path ((name1, d1) # rest) s =
     (case walkDir fn (filepath_Join [path, name1]) name1 d1 s of
        (s1, WNil) \<Rightarrow> walkEntries fn path rest s1
      | (s1, WSkipDir) \<Rightarrow> (s1, WNil)
      | (s1, WErr e) \<Rightarrow> (s1, WErr e))"

text \<open>
  \<^verbatim>\<open>filepath.WalkDir(root, fn)\<close>; \<open>lst\<close> is what \<^verbatim>\<open>os.Lstat(root)\<close> finds. The entry of
  the root is named by the last element of the root path.
\<close>

definition filepath_WalkDir ::
  "'s WalkDirFunc \<Rightarrow> string \<Rightarrow> os_error + dnode \<Rightarrow> 's \<Rightarrow> 's \<times> os_error option" where
  "filepath_WalkDir fn root lst s =
     (case (case lst of
              Inl e \<Rightarrow> fn root (LstatFailed e) s
            | Inr d \<Rightarrow> walkDir fn root (filepath_Base root) d s) of
        (s1, WErr e) \<Rightarrow> (s1, Some e)
      | (s1, _) \<Rightarrow> (s1, None))"

subsection \<open>Scanning: \<^verbatim>\<open>internal/scan\<close>\<close>

definition visit_error :: "os_error \<Rightarrow> walk_ret" where
  "visit_error e = (if os_IsPermission e then WSkipDir else WErr e)"

text \<open>
  The function \<^verbatim>\<open>scanPath\<close> hands to \<^verbatim>\<open>WalkDir\<close>; its state is the slice of candidates
  found so far.
\<close>

definition scan_visit :: "Scanner \<Rightarrow> string \<Rightarrow> Candidate list WalkDirFunc" where
  "scan_visit s absRootPath path call candidates =
     (case call of
        LstatFailed e \<Rightarrow> (candidates, visit_error e)
      | ReadDirFailed name d e \<Rightarrow> (candidates, visit_error e)
      | Entry name d \<Rightarrow>
          if \<not> is_dir d then (candidates, WNil)
          else (case filepath_Rel absRootPath path of
            None \<Rightarrow> (candidates, WNil)
          | Some relPath \<Rightarrow>
              (let depth = (if relPath = ''.'' then 0 else int (count_sep relPath))
               in if MaxDepth (config s) > 0 \<and> depth \<ge> MaxDepth (config s)
                    then (candidates, WSkipDir)
                  else if isPathExcluded s path then (candidates, WSkipDir)
                  else if \<not> FollowSymlinks (config s) \<and>
                      (case node_info d of Inr info \<Rightarrow> ModeSymlink info | Inl _ \<Rightarrow> False)
                    then (candidates, WSkipDir)
                  else
                    (let dirName = name
                     in if isVersionControlDir dirName then (candidates, WSkipDir)
                        else if dirName \<in> set (excludeMap s) then (candidates, WSkipDir)
                        else if dirName \<in> set (includeMap s) then
                          (candidates @
                             [\<lparr>Path = path, SizeBytes = 0,
                               Reason = ''matches include pattern '' @ [CHR 0x27] @ dirName
                                  @ [CHR 0x27],
                               NewestMTime =
                                 (case node_info d of Inr info \<Rightarrow> ModTime info
                                  | Inl _ \<Rightarrow> zero_time)\<rparr>],
                           WSkipDir)
                        else (candidates, WNil)))))"

datatype scan_error = AbsFailed string os_error | WalkFailed os_error

text \<open>
  \<^verbatim>\<open>scanPath\<close>. The file system is the function \<open>lstat\<close> from an absolute root path to
  what the walk finds there.
\<close>

definition scanPath ::
  "(string \<Rightarrow> os_error + string) \<Rightarrow> (string \<Rightarrow> os_error + dnode) \<Rightarrow> Scanner \<Rightarrow> string
   \<Rightarrow> scan_error + Candidate list" where
  "scanPath absf lstat s rootPath =
     (case absf rootPath of
        Inl e \<Rightarrow> Inl (AbsFailed rootPath e)
      | Inr absRootPath \<Rightarrow>
          if isPathExcluded s absRootPath then Inr []
          else (case filepath_WalkDir (scan_visit s absRootPath) absRootPath
                       (lstat absRootPath) [] of
                  (candidates, Some e) \<Rightarrow> Inl (WalkFailed e)
                | (candidates, None) \<Rightarrow> Inr candidates))"

text \<open>
  The method \<^verbatim>\<open>ScanPaths\<close> of the scanner (\<open>Scanner_ScanPaths\<close>, since \<open>ScanPaths\<close> is
  the field of the configuration) and its loop; an error is returned with the path that
  caused it.
\<close>

fun scan_loop ::
  "(string \<Rightarrow> os_error + string) \<Rightarrow> (string \<Rightarrow> os_error + dnode) \<Rightarrow> Scanner \<Rightarrow> string list
   \<Rightarrow> Candidate list \<Rightarrow> (string \<times> scan_error) + Candidate list" where
  "scan_loop absf lstat s [] allCandidates = Inr allCandidates"
| "scan_loop absf lstat s (scanPath1 # rest) allCandidates =
     (case scanPath absf lstat s scanPath1 of
        Inl e \<Rightarrow> Inl (scanPath1, e)
      | Inr candidates \<Rightarrow> scan_loop absf lstat s rest (allCandidates @ candidates))"

definition Scanner_ScanPaths ::
  "(string \<Rightarrow> os_error + string) \<Rightarrow> (string \<Rightarrow> os_error + dnode) \<Rightarrow> Scanner
   \<Rightarrow> (string \<times> scan_error) + Candidate list" where
  "Scanner_ScanPaths absf lstat s = scan_loop absf lstat s (ScanPaths (config s)) []"

subsection \<open>Sizes: \<^verbatim>\<open>internal/size\<close>\<close>

text \<open>
  The function \<^verbatim>\<open>calculateDirectorySize\<close> hands to \<^verbatim>\<open>WalkDir\<close>; its state is
  \<^verbatim>\<open>totalSize\<close>, an \<^verbatim>\<open>int64\<close> that wraps around.
\<close>

definition size_visit :: "64 word WalkDirFunc" where
  "size_visit path call totalSize =
     (case call of
        LstatFailed e \<Rightarrow>
          if os_IsPermission e \<or> os_IsNotExist e then (totalSize, WNil) else (totalSize, WErr e)
      | ReadDirFailed name d e \<Rightarrow>
          if os_IsPermission e \<or> os_IsNotExist e then (totalSize, WNil) else (totalSize, WErr e)
      | Entry name d \<Rightarrow>
          if \<not> is_dir d then
            (case node_info d of
               Inl e \<Rightarrow> (totalSize, WNil)
             | Inr info \<Rightarrow> (totalSize + Size info, WNil))
          else (totalSize, WNil))"

definition calculateDirectorySize ::
  "(string \<Rightarrow> os_error + dnode) \<Rightarrow> string \<Rightarrow> 64 word \<times> os_error option" where
  "calculateDirectorySize lstat dirPath =
     filepath_WalkDir size_visit dirPath (lstat dirPath) 0"

text \<open>\<^verbatim>\<open>FilterByMinSize\<close>; the comparison is between signed 64-bit values.\<close>

definition FilterByMinSize :: "Candidate list \<Rightarrow> int \<Rightarrow> Candidate list" where
  "FilterByMinSize candidates minSizeMB =
     (if minSizeMB \<le> 0 then candidates
      else filter (\<lambda>candidate.
             (word_of_int minSizeMB * 1024 * 1024 :: 64 word) \<le>s SizeBytes candidate)
           candidates)"

subsection \<open>Well-formed paths and trees\<close>

text \<open>
  Facts about the operating system that the theorems on scanning assume: an entry name
  is not empty, holds no separator and is neither \<^verbatim>\<open>.\<close> nor \<^verbatim>\<open>..\<close>; \<^verbatim>\<open>filepath.Abs\<close>
  returns a cleaned absolute path.
\<close>

definition valid_name :: "string \<Rightarrow> bool" where
  "valid_name n = (n \<noteq> [] \<and> filepath_Separator \<notin> set n \<and> n \<noteq> ''.'' \<and> n \<noteq> ''..'')"

fun valid_tree :: "dnode \<Rightarrow> bool"
and valid_entries :: "(string \<times> dnode) list \<Rightarrow> bool" where
  "valid_tree (FileN info) = True"
| "valid_tree (DirN info entries rerr) = valid_entries entries"
| "valid_entries [] = True"
| "valid_entries ((name1, d1) # rest) = (valid_name name1 \<and> valid_tree d1 \<and> valid_entries rest)"

definition clean_abs :: "string \<Rightarrow> bool" where
  "clean_abs p = (is_rooted p \<and> filepath_Clean p = p)"

text \<open>The path reached from \<open>root\<close> by going down through the entries \<open>names\<close>.\<close>

definition descend :: "string \<Rightarrow> string list \<Rightarrow> string" where
  "descend root names = foldl (\<lambda>p n. filepath_Join [p, n]) root names"

text \<open>
  The depth of a path as the specification counts it, in levels below the scan root: the
  root has depth 0, its entries have depth 1, and so on down.
\<close>

definition spec_depth :: "string \<Rightarrow> string \<Rightarrow> nat option" where
  "spec_depth root path =
     (case filepath_Rel root path of
        None \<Rightarrow> None
      | Some relPath \<Rightarrow> Some (if relPath = ''.'' then 0 else Suc (count_sep relPath)))"

text \<open>The cleaned absolute path with the elements \<open>cs\<close>.\<close>

definition abs_path :: "string list \<Rightarrow> string" where
  "abs_path cs = filepath_Separator # join_sep cs"

text \<open>
  The name \<^verbatim>\<open>d.Name()\<close> of the entry reached from \<open>root\<close> through \<open>names\<close>, and what
  \<^verbatim>\<open>scanPath\<close> has checked of a directory before it appends it as a candidate.
\<close>

definition entry_name :: "string \<Rightarrow> string list \<Rightarrow> string" where
  "entry_name root names = (if names = [] then filepath_Base root else last names)"

definition passed :: "Scanner \<Rightarrow> string \<Rightarrow> string \<Rightarrow> string \<Rightarrow> bool" where
  "passed s a path name =
     (name \<notin> set (excludeMap s) \<and> name \<in> set (includeMap s) \<and> \<not> isVersionControlDir name \<and>
      \<not> isPathExcluded s path \<and>
      (\<exists>relPath. filepath_Rel a path = Some relPath \<and>
         \<not> (MaxDepth (config s) > 0 \<and>
            (if relPath = ''.'' then 0 else int (count_sep relPath)) \<ge> MaxDepth (config s))))"

definition emitted :: "Scanner \<Rightarrow> string \<Rightarrow> Candidate \<Rightarrow> bool" where
  "emitted s a c =
     (\<exists>ds. list_all valid_name ds \<and> Path c = descend a ds \<and>
        passed s a (descend a ds) (entry_name a ds))"

subsection \<open>Concurrent size calculation: \<^verbatim>\<open>CalculateSizes\<close>\<close>

text \<open>\<^verbatim>\<open>NewCalculator\<close>: the number of workers, 8 when the configured value is not positive.\<close>

definition NewCalculator :: "int \<Rightarrow> nat" where
  "NewCalculator concurrency = (if concurrency \<le> 0 then 8 else nat concurrency)"

text \<open>
  \<^verbatim>\<open>CalculateSizes\<close> starts the workers in an \<^verbatim>\<open>errgroup\<close>, a sender goroutine that
  puts the indices into the buffered channel \<^verbatim>\<open>jobs\<close> and closes it, and a progress bar
  whose total is the number of candidates. Its executions are the interleavings of the
  steps below. The state records what the goroutines share: how many indices the sender
  has sent, whether it has returned (which closes the channel), the content of the
  channel, where each worker stands, the results slice, the count of the bar, the error
  of the context once it is done, and the first error a worker returned to the group.

  A \<^verbatim>\<open>select\<close> with several ready cases takes any of them: a worker at its \<^verbatim>\<open>select\<close> may
  take a job or notice the closed channel although the context is done, and the sender
  may send although the context is done.
\<close>

datatype ctx_error = Canceled | DeadlineExceeded

datatype worker = AtSelect | Summing nat | Returned "ctx_error option"

record calc_state =
  sent :: nat
  jobs_closed :: bool
  jobs :: "nat list"
  workers :: "worker list"
  results :: "Candidate list"
  bar :: nat
  ctx_err :: "ctx_error option"
  group_err :: "ctx_error option"

definition calc_init :: "nat \<Rightarrow> ctx_error option \<Rightarrow> Candidate list \<Rightarrow> calc_state" where
  "calc_init concurrency ctx0 candidates =
     \<lparr>sent = 0, jobs_closed = False, jobs = [],
      workers = replicate concurrency AtSelect,
      results = replicate (length candidates) zero_Candidate,
      bar = 0, ctx_err = ctx0, group_err = None\<rparr>"

text \<open>The slot a worker writes for the index it took from the channel.\<close>

definition sized :: "(string \<Rightarrow> os_error + dnode) \<Rightarrow> Candidate \<Rightarrow> Candidate" where
  "sized lstat candidate =
     candidate\<lparr>SizeBytes := fst (calculateDirectorySize lstat (Path candidate))\<rparr>"

text \<open>
  The steps: the context is cancelled or times out (from outside); the sender sends the
  next index, gives up on a done context, or ends its loop; a worker takes an index from
  the channel, finishes the sum (it ignores the error of \<^verbatim>\<open>calculateDirectorySize\<close>,
  writes its slot and increments the bar), returns \<^verbatim>\<open>nil\<close> on the closed and empty
  channel, or returns \<^verbatim>\<open>ctx.Err()\<close> on the done context, which the group records if it is
  the first error. An index a worker holds was put into the channel by the sender and
  lies below the length of the slices (\<open>calc_inv\<close> below), so that the slice accesses of
  the worker cannot panic.
\<close>

inductive calc_step ::
  "(string \<Rightarrow> os_error + dnode) \<Rightarrow> Candidate list \<Rightarrow> calc_state \<Rightarrow> calc_state \<Rightarrow> bool"
  for lstat :: "string \<Rightarrow> os_error + dnode" and candidates :: "Candidate list" where
  cancel:
    "ctx_err s = None \<Longrightarrow> calc_step lstat candidates s (s\<lparr>ctx_err := Some e\<rparr>)"
| send:
    "\<not> jobs_closed s \<Longrightarrow> sent s < length candidates \<Longrightarrow>
     calc_step lstat candidates s (s\<lparr>jobs := jobs s @ [sent s], sent := Suc (sent s)\<rparr>)"
| sender_stop:
    "\<not> jobs_closed s \<Longrightarrow> sent s < length candidates \<Longrightarrow> ctx_err s = Some e \<Longrightarrow>
     calc_step lstat candidates s (s\<lparr>jobs_closed := True\<rparr>)"
| sender_end:
    "\<not> jobs_closed s \<Longrightarrow> sent s = length candidates \<Longrightarrow>
     calc_step lstat candidates s (s\<lparr>jobs_closed := True\<rparr>)"
| receive:
    "w < length (workers s) \<Longrightarrow> workers s ! w = AtSelect \<Longrightarrow> jobs s = idx # rest \<Longrightarrow>
     calc_step lstat candidates s (s\<lparr>jobs := rest, workers := (workers s)[w := Summing idx]\<rparr>)"
| complete:
    "w < length (workers s) \<Longrightarrow> workers s ! w = Summing idx \<Longrightarrow> idx < length candidates \<Longrightarrow>
     calc_step lstat candidates s
       (s\<lparr>results := (results s)[idx := sized lstat (candidates ! idx)],
          bar := Suc (bar s),
          workers := (workers s)[w := AtSelect]\<rparr>)"
| closed_exit:
    "w < length (workers s) \<Longrightarrow> workers s ! w = AtSelect \<Longrightarrow> jobs s = [] \<Longrightarrow> jobs_closed s \<Longrightarrow>
     calc_step lstat candidates s (s\<lparr>workers := (workers s)[w := Returned None]\<rparr>)"
| ctx_exit:
    "w < length (workers s) \<Longrightarrow> workers s ! w = AtSelect \<Longrightarrow> ctx_err s = Some e \<Longrightarrow>
     calc_step lstat candidates s
       (s\<lparr>workers := (workers s)[w := Returned (Some e)],
          group_err := (case group_err s of None \<Rightarrow> Some e | Some e0 \<Rightarrow> Some e0)\<rparr>)"

definition calc_steps ::
  "(string \<Rightarrow> os_error + dnode) \<Rightarrow> Candidate list \<Rightarrow> calc_state \<Rightarrow> calc_state \<Rightarrow> bool" where
  "calc_steps lstat candidates = (calc_step lstat candidates)\<^sup>*\<^sup>*"

text \<open>
  \<^verbatim>\<open>g.Wait()\<close> returns when every worker has returned; \<^verbatim>\<open>p.Wait()\<close> then waits for the
  progress bar to finish. The bar is created with the number of candidates as its total
  and is never aborted: it finishes when it has been incremented that often, and until
  then the wait of the progress container does not return. After both waits the call
  returns the error of the group with a \<^verbatim>\<open>nil\<close> slice, or the results.
\<close>

fun has_returned :: "worker \<Rightarrow> bool" where
  "has_returned (Returned e) = True"
| "has_returned w = False"

definition waits_over :: "Candidate list \<Rightarrow> calc_state \<Rightarrow> bool" where
  "waits_over candidates s =
     (list_all has_returned (workers s) \<and> bar s = length candidates)"

definition return_value :: "calc_state \<Rightarrow> ctx_error + Candidate list" where
  "return_value s = (case group_err s of Some e \<Rightarrow> Inl e | None \<Rightarrow> Inr (results s))"

text \<open>
  \<open>CalculateSizes concurrency lstat ctx0 candidates ret ctx1\<close>: the call on a calculator
  with \<open>concurrency\<close> workers, under a context whose error is \<open>ctx0\<close> at the start
  (\<open>None\<close>: not done), can return \<open>ret\<close>, the error of the context being \<open>ctx1\<close> by
  then. An empty slice is returned at once.
\<close>

inductive CalculateSizes ::
  "nat \<Rightarrow> (string \<Rightarrow> os_error + dnode) \<Rightarrow> ctx_error option \<Rightarrow> Candidate list
   \<Rightarrow> ctx_error + Candidate list \<Rightarrow> ctx_error option \<Rightarrow> bool" where
  no_candidates:
    "length candidates = 0 \<Longrightarrow> CalculateSizes concurrency lstat ctx0 candidates (Inr candidates) ctx0"
| ran:
    "length candidates \<noteq> 0 \<Longrightarrow>
     calc_steps lstat candidates (calc_init concurrency ctx0 candidates) s \<Longrightarrow>
     waits_over candidates s \<Longrightarrow>
     CalculateSizes concurrency lstat ctx0 candidates (return_value s) (ctx_err s)"

subsection \<open>Invariants of the size calculation\<close>

text \<open>
  What holds in every state an execution reaches. \<open>taken\<close> is the number of indices the
  workers have received so far; the channel holds the indices from there up to the last
  one sent; every received index is either being summed by exactly one worker or has its
  slot written, and the bar counts the written ones.
\<close>

fun is_summing :: "worker \<Rightarrow> bool" where
  "is_summing (Summing i) = True"
| "is_summing w = False"

definition taken :: "calc_state \<Rightarrow> nat" where
  "taken s = sent s - length (jobs s)"

definition calc_inv ::
  "(string \<Rightarrow> os_error + dnode) \<Rightarrow> Candidate list \<Rightarrow> calc_state \<Rightarrow> bool" where
  "calc_inv lstat candidates s =
     (sent s \<le> length candidates \<and>
      length (results s) = length candidates \<and>
      length (jobs s) \<le> sent s \<and>
      [taken s ..< sent s] = jobs s \<and>
      bar s + length (filter is_summing (workers s)) = taken s \<and>
      (\<forall>w < length (workers s). \<forall>i. workers s ! w = Summing i \<longrightarrow>
         i < taken s \<and>
         (\<forall>w' < length (workers s). workers s ! w' = Summing i \<longrightarrow> w' = w)) \<and>
      (\<forall>i < taken s.
         (\<exists>w < length (workers s). workers s ! w = Summing i) \<or>
         results s ! i = sized lstat (candidates ! i)) \<and>
      (group_err s \<noteq> None \<longrightarrow> ctx_err s \<noteq> None))"

text \<open>
  A measure of what is left to do in a state: every step makes it smaller, so every
  execution is finite.
\<close>

fun worker_weight :: "worker \<Rightarrow> nat" where
  "worker_weight AtSelect = 1"
| "worker_weight (Summing i) = 2"
| "worker_weight (Returned e) = 0"

definition calc_measure :: "Candidate list \<Rightarrow> calc_state \<Rightarrow> nat" where
  "calc_measure candidates s =
     4 * (length candidates - sent s) + 3 * length (jobs s)
     + sum_list (map worker_weight (workers s))
     + (if jobs_closed s then 0 else 1) + (if ctx_err s = None then 1 else 0)"

text \<open>
  What holds in addition as long as the context is not done: the channel is closed only
  after every index has been sent, and a worker has returned only from the closed and
  empty channel.
\<close>

definition quiet_inv :: "Candidate list \<Rightarrow> calc_state \<Rightarrow> bool" where
  "quiet_inv candidates s =
     (ctx_err s = None \<and>
      (jobs_closed s \<longrightarrow> sent s = length candidates) \<and>
      (list_ex has_returned (workers s) \<longrightarrow> jobs_closed s \<and> jobs s = []))"

subsection \<open>The file system seen by the quarantine commands\<close>

text \<open>
  The quarantine code reaches the file system only through \<^verbatim>\<open>os.MkdirAll\<close>,
  \<^verbatim>\<open>os.Rename\<close>, \<^verbatim>\<open>os.WriteFile\<close>, \<^verbatim>\<open>os.ReadDir\<close>, \<^verbatim>\<open>os.ReadFile\<close> and
  \<^verbatim>\<open>os.Remove\<close>. These belong to the Go standard library, not to the repository; they
  are modelled here by their documented behaviour on Unix, over a file system that is a
  table from cleaned path names to nodes. Failure causes that depend on more than the
  tree (permissions, devices) are not represented; each of them leaves the tree as it is.
\<close>

datatype node = File string | Dir

type_synonym fs = "(string \<times> node) list"

definition node_at :: "fs \<Rightarrow> string \<Rightarrow> node option" where
  "node_at t p = (if p = [] then None else map_of t (filepath_Clean p))"

text \<open>\<^verbatim>\<open>filepath.Dir\<close>: everything up to the last separator, cleaned.\<close>

definition filepath_Dir :: "string \<Rightarrow> string" where
  "filepath_Dir p =
     filepath_Clean (rev (dropWhile (\<lambda>c. c \<noteq> filepath_Separator) (rev p)))"

definition below :: "string \<Rightarrow> string \<Rightarrow> bool" where
  "below d q = (q \<noteq> d \<and>
     strings_HasPrefix q (if d = [filepath_Separator] then d else d @ [filepath_Separator]))"

record DirEntry =
  Name :: string
  IsDir :: bool

text \<open>\<^verbatim>\<open>os.ReadDir\<close> returns the entries of the directory sorted by file name.\<close>

definition os_ReadDir :: "fs \<Rightarrow> string \<Rightarrow> os_error + DirEntry list" where
  "os_ReadDir t dir =
     (case node_at t dir of
        None \<Rightarrow> Inl ENOENT
      | Some (File _) \<Rightarrow> Inl ENOTDIR
      | Some Dir \<Rightarrow>
          Inr (sort_key Name
            (map (\<lambda>(q, n). \<lparr>Name = filepath_Base q, IsDir = (n = Dir)\<rparr>)
              (filter (\<lambda>(q, n). q \<noteq> filepath_Clean dir \<and> filepath_Dir q = filepath_Clean dir)
                 t))))"

definition os_ReadFile :: "fs \<Rightarrow> string \<Rightarrow> os_error + string" where
  "os_ReadFile t p =
     (case node_at t p of
        None \<Rightarrow> Inl ENOENT
      | Some Dir \<Rightarrow> Inl EISDIR
      | Some (File data) \<Rightarrow> Inr data)"

definition remove_key :: "string \<Rightarrow> fs \<Rightarrow> fs" where
  "remove_key p t = filter (\<lambda>(q, n). q \<noteq> p) t"

text \<open>\<^verbatim>\<open>os.Remove\<close> removes a file or an empty directory.\<close>

definition os_Remove :: "fs \<Rightarrow> string \<Rightarrow> os_error + fs" where
  "os_Remove t p =
     (case node_at t p of
        None \<Rightarrow> Inl ENOENT
      | Some (File _) \<Rightarrow> Inr (remove_key (filepath_Clean p) t)
      | Some Dir \<Rightarrow>
          if list_ex (\<lambda>(q, n). below (filepath_Clean p) q) t then Inl ENOTEMPTY
          else Inr (remove_key (filepath_Clean p) t))"

text \<open>
  \<^verbatim>\<open>os.WriteFile\<close> creates or truncates the file; the directory that is to hold it must
  exist.
\<close>

definition os_WriteFile :: "fs \<Rightarrow> string \<Rightarrow> string \<Rightarrow> os_error + fs" where
  "os_WriteFile t p data =
     (case node_at t p of
        Some Dir \<Rightarrow> Inl EISDIR
      | _ \<Rightarrow>
          (case (if p = [] then None else map_of t (filepath_Dir (filepath_Clean p))) of
             None \<Rightarrow> Inl ENOENT
           | Some (File _) \<Rightarrow> Inl ENOTDIR
           | Some Dir \<Rightarrow>
               Inr (remove_key (filepath_Clean p) t @ [(filepath_Clean p, File data)])))"

text \<open>
  \<^verbatim>\<open>os.Rename\<close> gets the two paths of a sidecar as they are spelled, and what it does
  depends on the spelling; so its paths are resolved as the system calls resolve them.
  In a table without symbolic links a path is walked from the root (or from the working
  directory \<^verbatim>\<open>.\<close>) element by element: every element is looked up in a directory, so a
  path through a plain file fails with \<^verbatim>\<open>ENOTDIR\<close> and a path through a missing
  directory with \<^verbatim>\<open>ENOENT\<close>; an empty element and \<^verbatim>\<open>.\<close> stay in the directory,
  \<^verbatim>\<open>..\<close> goes to its parent, which is what \<^verbatim>\<open>filepath.Join\<close> gives for the key.
  \<open>raw_elems\<close> are the elements of the path as it is spelled, without the empty ones that
  trailing separators leave; the last of them is the name that a rename acts on, and it
  is a normal name when it is neither \<^verbatim>\<open>.\<close> nor \<^verbatim>\<open>..\<close> (the root has no last element
  at all).
\<close>

fun resolve_from :: "fs \<Rightarrow> string \<Rightarrow> string list \<Rightarrow> os_error + string" where
  "resolve_from t cur [] = Inr cur"
| "resolve_from t cur (e # es) =
     (case map_of t cur of
        None \<Rightarrow> Inl ENOENT
      | Some (File _) \<Rightarrow> Inl ENOTDIR
      | Some Dir \<Rightarrow> resolve_from t (filepath_Join [cur, e]) es)"

definition start_dir :: "string \<Rightarrow> string" where
  "start_dir p = (if is_rooted p then [filepath_Separator] else ''.'')"

definition raw_elems :: "string \<Rightarrow> string list" where
  "raw_elems p = rev (dropWhile (\<lambda>e. e = []) (rev (split_sep p)))"

definition trailing_slash :: "string \<Rightarrow> bool" where
  "trailing_slash p = (raw_elems p \<noteq> split_sep p)"

definition last_normal :: "string \<Rightarrow> bool" where
  "last_normal p =
     (raw_elems p \<noteq> [] \<and> last (raw_elems p) \<noteq> ''.'' \<and> last (raw_elems p) \<noteq> ''..'')"

text \<open>The directory that holds the last element of the path.\<close>

definition lookup_parent :: "fs \<Rightarrow> string \<Rightarrow> os_error + string" where
  "lookup_parent t p =
     (case resolve_from t (start_dir p) (butlast (raw_elems p)) of
        Inl e \<Rightarrow> Inl e
      | Inr dir \<Rightarrow>
          (case map_of t dir of
             None \<Rightarrow> Inl ENOENT
           | Some (File _) \<Rightarrow> Inl ENOTDIR
           | Some Dir \<Rightarrow> Inr dir))"

text \<open>
  \<^verbatim>\<open>os.Lstat\<close>: the node that the path names, together with its key in the table. Two
  paths name the same file (\<^verbatim>\<open>os.SameFile\<close>) when they resolve to the same key. A path
  with a trailing separator names a directory or nothing.
\<close>

definition os_Lstat :: "fs \<Rightarrow> string \<Rightarrow> os_error + string \<times> node" where
  "os_Lstat t p =
     (if p = [] then Inl ENOENT
      else case lookup_parent t p of
             Inl e \<Rightarrow> Inl e
           | Inr dir \<Rightarrow>
               (let k = (if raw_elems p = [] then dir
                         else filepath_Join [dir, last (raw_elems p)])
                in case map_of t k of
                     None \<Rightarrow> Inl ENOENT
                   | Some n \<Rightarrow> if trailing_slash p \<and> n \<noteq> Dir then Inl ENOTDIR else Inr (k, n)))"





text \<open>
  The system call \<^verbatim>\<open>rename(2)\<close>, in the order in which Linux decides it: both parent
  directories are resolved; a last element that is not a normal name is refused
  (\<^verbatim>\<open>EBUSY\<close>); the source must exist; a source that is not a directory admits no trailing
  separator; a directory does not move below itself, nor onto one of its ancestors; a
  path renamed to itself, under whatever spelling, succeeds and changes nothing; a
  directory does not replace a file, nor a file a directory, and a directory replaces
  only an empty directory. Otherwise the source and everything below it get the new name,
  in place of what the new name held.
\<close>

definition rekey :: "string \<Rightarrow> string \<Rightarrow> string \<times> node \<Rightarrow> string \<times> node" where
  "rekey old new e =
     (case e of (q, n) \<Rightarrow>
        (if q = old then new
         else if below old q then new @ drop (length old) q
         else q, n))"

definition syscall_Rename :: "fs \<Rightarrow> string \<Rightarrow> string \<Rightarrow> os_error + fs" where
  "syscall_Rename t oldpath newpath =
     (case lookup_parent t oldpath of
        Inl e \<Rightarrow> Inl e
      | Inr olddir \<Rightarrow>
     (case lookup_parent t newpath of
        Inl e \<Rightarrow> Inl e
      | Inr newdir \<Rightarrow>
          if \<not> last_normal oldpath \<or> \<not> last_normal newpath then Inl EBUSY
          else
            (let old = filepath_Join [olddir, last (raw_elems oldpath)];
                 new = filepath_Join [newdir, last (raw_elems newpath)]
             in case map_of t old of
                  None \<Rightarrow> Inl ENOENT
                | Some src \<Rightarrow>
                    if src \<noteq> Dir \<and> (trailing_slash oldpath \<or> trailing_slash newpath)
                    then Inl ENOTDIR
                    else if below old new then Inl EINVAL
                    else if below new old then Inl ENOTEMPTY
                    else if old = new then Inr t
                    else
                      (case (src, map_of t new) of
                         (Dir, Some (File _)) \<Rightarrow> Inl ENOTDIR
                       | (File _, Some Dir) \<Rightarrow> Inl EISDIR
                       | (Dir, Some Dir) \<Rightarrow>
                           if list_ex (\<lambda>(q, n). below new q) t then Inl ENOTEMPTY
                           else Inr (map (rekey old new) (remove_key new t))
                       | _ \<Rightarrow> Inr (map (rekey old new) (remove_key new t))))))"

text \<open>
  \<^verbatim>\<open>os.Rename(oldpath, newpath)\<close>. Before the system call Go looks at \<^verbatim>\<open>newpath\<close>: if
  it is an existing directory and \<^verbatim>\<open>oldpath\<close> cannot be examined, the call fails with
  the error of \<^verbatim>\<open>oldpath\<close>; if \<^verbatim>\<open>oldpath\<close> can be examined, the call fails with
  \<^verbatim>\<open>EEXIST\<close> when the two strings are equal or the two paths name different files. In
  every other case, also when the two strings are different spellings of one directory,
  the system call decides. An empty path names nothing (\<^verbatim>\<open>ENOENT\<close>), here and in the
  other calls.
\<close>

definition os_Rename :: "fs \<Rightarrow> string \<Rightarrow> string \<Rightarrow> os_error + fs" where
  "os_Rename t oldpath newpath =
     (if oldpath = [] \<or> newpath = [] then Inl ENOENT
      else case os_Lstat t newpath of
             Inr (new, Dir) \<Rightarrow>
               (case os_Lstat t oldpath of
                  Inl e \<Rightarrow> Inl e
                | Inr (old, _) \<Rightarrow>
                    if newpath = oldpath \<or> old \<noteq> new then Inl EEXIST
                    else syscall_Rename t oldpath newpath)
           | _ \<Rightarrow> syscall_Rename t oldpath newpath)"

text \<open>
  \<^verbatim>\<open>os.MkdirAll\<close>: an existing directory is fine, an existing file is an error, and a
  missing path is created together with its missing parents.
\<close>

fun mkdir_chain :: "fs \<Rightarrow> string \<Rightarrow> string list \<Rightarrow> os_error + fs" where
  "mkdir_chain t cur [] = Inr t"
| "mkdir_chain t cur (e # es) =
     (let p = (if cur = [] then e else filepath_Join [cur, e])
      in case map_of t p of
           Some (File _) \<Rightarrow> Inl ENOTDIR
         | Some Dir \<Rightarrow> mkdir_chain t p es
         | None \<Rightarrow> mkdir_chain (t @ [(p, Dir)]) p es)"

definition os_MkdirAll :: "fs \<Rightarrow> string \<Rightarrow> os_error + fs" where
  "os_MkdirAll t p =
     (let c = filepath_Clean p
      in if p = [] then Inl ENOENT
      else mkdir_chain t (if is_rooted c then [filepath_Separator] else []) (path_elems c))"

subsection \<open>Quarantine metadata\<close>

text \<open>
  \<^verbatim>\<open>erase.Metadata\<close>. Its size field is named \<open>MSizeBytes\<close> here, since a record field
  is a constant and \<open>SizeBytes\<close> is the field of \<open>Candidate\<close>.
\<close>

record Metadata =
  OriginalPath :: string
  QuarantinePath :: string
  Timestamp :: time
  MSizeBytes :: "64 word"

subsection \<open>Quarantine: \<^verbatim>\<open>internal/erase\<close>\<close>

text \<open>\<^verbatim>\<open>time.Format("20060102-150405")\<close>: zero-padded decimal fields down to the second.\<close>

definition digit_char :: "nat \<Rightarrow> char" where
  "digit_char d = ''0123456789'' ! (d mod 10)"

fun dec_digits :: "nat \<Rightarrow> string" where
  "dec_digits n =
     (if n < 10 then [digit_char n] else dec_digits (n div 10) @ [digit_char (n mod 10)])"

definition pad_int :: "nat \<Rightarrow> nat \<Rightarrow> string" where
  "pad_int width n = replicate (width - length (dec_digits n)) CHR ''0'' @ dec_digits n"

definition Format_20060102_150405 :: "time \<Rightarrow> string" where
  "Format_20060102_150405 t =
     pad_int 4 (year t) @ pad_int 2 (month t) @ pad_int 2 (day t) @ ''-''
     @ pad_int 2 (hour t) @ pad_int 2 (minute t) @ pad_int 2 (second t)"

text \<open>
  Errors returned by the commands. \<open>IndexOutOfRange\<close> is the run-time panic of a slice
  index out of range.
\<close>

datatype app_error =
  MarshalFailed
| WriteFailed os_error
| MkdirFailed os_error
| RmNotImplemented
| UnsupportedMode string
| ListFailed os_error
| PromptFailed
| MoveDirFailed os_error
| IndexOutOfRange

text \<open>
  \<^verbatim>\<open>writeMetadata\<close>. \<^verbatim>\<open>json.MarshalIndent\<close> is the parameter \<open>marshal\<close> (\<open>None\<close> when it
  fails), \<open>tnow\<close> is the reading of \<^verbatim>\<open>time.Now()\<close>.
\<close>

definition writeMetadata ::
  "(Metadata \<Rightarrow> string option) \<Rightarrow> time \<Rightarrow> fs \<Rightarrow> Candidate \<Rightarrow> string \<Rightarrow> app_error + fs" where
  "writeMetadata marshal tnow t candidate quarantinePath =
     (let meta = \<lparr>OriginalPath = Path candidate, QuarantinePath = quarantinePath,
                   Timestamp = tnow, MSizeBytes = SizeBytes candidate\<rparr>;
          metaPath = quarantinePath @ ''.meta.json''
      in case marshal meta of
           None \<Rightarrow> Inl MarshalFailed
         | Some data \<Rightarrow>
             (case os_WriteFile t metaPath data of
                Inl e \<Rightarrow> Inl (WriteFailed e)
              | Inr t1 \<Rightarrow> Inr t1))"

text \<open>
  What \<^verbatim>\<open>quarantineCandidates\<close> reports for one candidate: the line
  \<^verbatim>\<open>Quarantining src -> destPath\<close>, then nothing more, or the warning that the move failed,
  or the critical warning that the metadata could not be written.
\<close>

datatype item_outcome = Quarantined | MoveWarning os_error | MetadataCritical app_error

text \<open>
  The loop of \<^verbatim>\<open>quarantineCandidates\<close>. The clock is the function \<open>now\<close> from the number
  of readings taken so far to the time read; the state is the file system and that
  number. Each candidate reads the clock once for its name and, after a successful move,
  once more in \<^verbatim>\<open>writeMetadata\<close>.
\<close>

fun quarantine_loop ::
  "(Metadata \<Rightarrow> string option) \<Rightarrow> (nat \<Rightarrow> time) \<Rightarrow> string \<Rightarrow> Candidate list \<Rightarrow> fs \<times> nat
   \<Rightarrow> (fs \<times> nat) \<times> (string \<times> item_outcome) list" where
  "quarantine_loop marshal now quarantineDir [] w = (w, [])"
| "quarantine_loop marshal now quarantineDir (candidate # rest) (t, k) =
     (let timestamp = Format_20060102_150405 (now k);
          baseName = filepath_Base (Path candidate);
          destName = timestamp @ ''-'' @ baseName;
          destPath = filepath_Join [quarantineDir, destName]
      in case os_Rename t (Path candidate) destPath of
           Inl e \<Rightarrow>
             (case quarantine_loop marshal now quarantineDir rest (t, Suc k) of
                (w, log) \<Rightarrow> (w, (destPath, MoveWarning e) # log))
         | Inr t1 \<Rightarrow>
             (case writeMetadata marshal (now (Suc k)) t1 candidate destPath of
                Inl e \<Rightarrow>
                  (case quarantine_loop marshal now quarantineDir rest (t1, Suc (Suc k)) of
                     (w, log) \<Rightarrow> (w, (destPath, MetadataCritical e) # log))
              | Inr t2 \<Rightarrow>
                  (case quarantine_loop marshal now quarantineDir rest (t2, Suc (Suc k)) of
                     (w, log) \<Rightarrow> (w, (destPath, Quarantined) # log))))"

definition quarantineCandidates ::
  "(Metadata \<Rightarrow> string option) \<Rightarrow> (nat \<Rightarrow> time) \<Rightarrow> Config \<Rightarrow> Candidate list \<Rightarrow> fs \<times> nat
   \<Rightarrow> app_error option \<times> (fs \<times> nat) \<times> (string \<times> item_outcome) list" where
  "quarantineCandidates marshal now cfg candidates w =
     (case w of (t, k) \<Rightarrow>
        (case os_MkdirAll t (Delete_QuarantineDir cfg) of
           Inl e \<Rightarrow> (Some (MkdirFailed e), w, [])
         | Inr t1 \<Rightarrow>
             (case quarantine_loop marshal now (Delete_QuarantineDir cfg) candidates (t1, k) of
                (w1, log) \<Rightarrow> (None, w1, log))))"

definition EraseCandidates ::
  "(Metadata \<Rightarrow> string option) \<Rightarrow> (nat \<Rightarrow> time) \<Rightarrow> Config \<Rightarrow> Candidate list \<Rightarrow> fs \<times> nat
   \<Rightarrow> app_error option \<times> (fs \<times> nat) \<times> (string \<times> item_outcome) list" where
  "EraseCandidates marshal now cfg candidates w =
     (if Delete_Mode cfg = ''quarantine'' then quarantineCandidates marshal now cfg candidates w
      else if Delete_Mode cfg = ''rm'' then (Some RmNotImplemented, w, [])
      else (Some (UnsupportedMode (Delete_Mode cfg)), w, []))"

subsection \<open>Listing and restoring: \<^verbatim>\<open>cmd/restore.go\<close>\<close>

text \<open>
  The loop of \<^verbatim>\<open>listQuarantinedItems\<close> over the directory entries. \<^verbatim>\<open>json.Unmarshal\<close>
  into a \<^verbatim>\<open>Metadata\<close> is the parameter \<open>unmarshal\<close> (\<open>None\<close> when it fails). A file that
  cannot be read or parsed is skipped with a warning.
\<close>

fun list_loop ::
  "(string \<Rightarrow> Metadata option) \<Rightarrow> fs \<Rightarrow> string \<Rightarrow> DirEntry list \<Rightarrow> Metadata list" where
  "list_loop unmarshal t quarantineDir [] = []"
| "list_loop unmarshal t quarantineDir (file # files) =
     (if \<not> IsDir file \<and> strings_HasSuffix (Name file) ''.meta.json'' then
        (let metaPath = filepath_Join [quarantineDir, Name file]
         in case os_ReadFile t metaPath of
              Inl e \<Rightarrow> list_loop unmarshal t quarantineDir files
            | Inr data \<Rightarrow>
                (case unmarshal data of
                   None \<Rightarrow> list_loop unmarshal t quarantineDir files
                 | Some meta \<Rightarrow> meta # list_loop unmarshal t quarantineDir files))
      else list_loop unmarshal t quarantineDir files)"

definition listQuarantinedItems ::
  "(string \<Rightarrow> Metadata option) \<Rightarrow> fs \<Rightarrow> string \<Rightarrow> os_error + Metadata list" where
  "listQuarantinedItems unmarshal t quarantineDir =
     (case os_ReadDir t quarantineDir of
        Inl e \<Rightarrow> if os_IsNotExist e then Inr [] else Inl e
      | Inr files \<Rightarrow> Inr (list_loop unmarshal t quarantineDir files))"

text \<open>
  \<^verbatim>\<open>runRestore\<close>. The answer of the interactive prompt is a parameter: an index into the
  listed items, an abort, or a failure of the prompt.
\<close>

datatype prompt_result = Selected nat | PromptAbort | PromptError

definition runRestore ::
  "(string \<Rightarrow> Metadata option) \<Rightarrow> Config \<Rightarrow> prompt_result \<Rightarrow> fs \<Rightarrow> app_error option \<times> fs" where
  "runRestore unmarshal cfg answer t =
     (case listQuarantinedItems unmarshal t (Delete_QuarantineDir cfg) of
        Inl e \<Rightarrow> (Some (ListFailed e), t)
      | Inr items \<Rightarrow>
          if length items = 0 then (None, t)
          else (case answer of
             PromptAbort \<Rightarrow> (None, t)
           | PromptError \<Rightarrow> (Some PromptFailed, t)
           | Selected idx \<Rightarrow>
               if \<not> idx < length items then (Some IndexOutOfRange, t)
               else
                 (let selectedItem = items ! idx
                  in case os_Rename t (QuarantinePath selectedItem) (OriginalPath selectedItem) of
                       Inl e \<Rightarrow> (Some (MoveDirFailed e), t)
                     | Inr t1 \<Rightarrow>
                         (let metaPath = QuarantinePath selectedItem @ ''.meta.json''
                          in case os_Remove t1 metaPath of
                               Inl e \<Rightarrow> (None, t1)
                             | Inr t2 \<Rightarrow> (None, t2)))))"

subsection \<open>Concrete inputs\<close>

text \<open>File systems, records and clocks on which the theorems below are evaluated.\<close>

definition march_9 :: "nat \<Rightarrow> time" where
  "march_9 ns = \<lparr>year = 2025, month = 3, day = 9, hour = 14, minute = 5, second = 7,
     nanosecond = ns\<rparr>"

definition quarantine_cfg :: Config where
  "quarantine_cfg = (GetDefaults ''/home/u'' 4)\<lparr>Delete_QuarantineDir := ''/q''\<rparr>"

text \<open>Two projects, each with a \<^verbatim>\<open>node_modules\<close> directory, and an empty quarantine.\<close>

definition two_projects_fs :: fs where
  "two_projects_fs =
     [(''/'', Dir), (''/q'', Dir), (''/w'', Dir),
      (''/w/p1'', Dir), (''/w/p1/node_modules'', Dir), (''/w/p1/node_modules/a.js'', File ''1''),
      (''/w/p2'', Dir), (''/w/p2/node_modules'', Dir), (''/w/p2/node_modules/b.js'', File ''2'')]"

definition two_projects_candidates :: "Candidate list" where
  "two_projects_candidates =
     [\<lparr>Path = ''/w/p1/node_modules'', SizeBytes = 1,
       Reason = ''matches include pattern node_modules'', NewestMTime = zero_time\<rparr>,
      \<lparr>Path = ''/w/p2/node_modules'', SizeBytes = 1,
       Reason = ''matches include pattern node_modules'', NewestMTime = zero_time\<rparr>]"

text \<open>A sidecar whose subtree is gone from the quarantine.\<close>

definition stale_meta :: Metadata where
  "stale_meta = \<lparr>OriginalPath = ''/w/node_modules'',
     QuarantinePath = ''/q/20250309-140507-node_modules'',
     Timestamp = march_9 0, MSizeBytes = 1024\<rparr>"

definition stale_fs :: fs where
  "stale_fs =
     [(''/'', Dir), (''/q'', Dir),
      (''/q/20250309-140507-node_modules.meta.json'', File ''sidecar of /w/node_modules'')]"

text \<open>A quarantined directory with its sidecar, and its original path taken again.\<close>

definition kept_meta :: Metadata where
  "kept_meta = \<lparr>OriginalPath = ''/w/build'',
     QuarantinePath = ''/q/20250309-140507-build'',
     Timestamp = march_9 0, MSizeBytes = 2048\<rparr>"

definition kept_fs :: fs where
  "kept_fs =
     [(''/'', Dir), (''/q'', Dir), (''/w'', Dir),
      (''/q/20250309-140507-build'', Dir), (''/q/20250309-140507-build/out.o'', File ''old''),
      (''/q/20250309-140507-build.meta.json'', File ''sidecar of /w/build''),
      (''/w/build'', Dir), (''/w/build/out.o'', File ''new'')]"

text \<open>A record whose quarantined entry is a plain file, and its original path taken again.\<close>

definition notes_meta :: Metadata where
  "notes_meta = \<lparr>OriginalPath = ''/w/notes'',
     QuarantinePath = ''/q/20250309-140507-notes'',
     Timestamp = march_9 0, MSizeBytes = 3\<rparr>"

definition notes_fs :: fs where
  "notes_fs =
     [(''/'', Dir), (''/q'', Dir), (''/w'', Dir),
      (''/q/20250309-140507-notes'', File ''old''),
      (''/q/20250309-140507-notes.meta.json'', File ''sidecar of /w/notes''),
      (''/w/notes'', File ''new'')]"



text \<open>
  The directory tree of the scanner's tests under the root \<^verbatim>\<open>/w\<close>:
  \<^verbatim>\<open>project1/{node_modules/file.tmp, src, .git, deep/nested/target}\<close> and
  \<^verbatim>\<open>project2/vendor\<close>.
\<close>

definition plain_info :: "os_error + FileInfo" where
  "plain_info = Inr \<lparr>Size = 0, ModTime = march_9 0, ModeSymlink = False\<rparr>"

definition test_tree :: dnode where
  "test_tree =
     DirN plain_info
       [(''project1'', DirN plain_info
           [(''.git'', DirN plain_info [] None),
            (''deep'', DirN plain_info
               [(''nested'', DirN plain_info [(''target'', DirN plain_info [] None)] None)] None),
            (''node_modules'', DirN plain_info [(''file.tmp'', FileN plain_info)] None),
            (''src'', DirN plain_info [] None)] None),
        (''project2'', DirN plain_info [(''vendor'', DirN plain_info [] None)] None)]
       None"

definition test_lstat :: "string \<Rightarrow> os_error + dnode" where
  "test_lstat p = (if p = ''/w'' then Inr test_tree else Inl ENOENT)"

definition test_cfg :: Config where
  "test_cfg = (GetDefaults ''/home/u'' 4)\<lparr>ScanPaths := [''/w''], ExcludePaths := []\<rparr>"

definition test_candidate :: "string \<Rightarrow> string \<Rightarrow> Candidate" where
  "test_candidate p n =
     \<lparr>Path = p, SizeBytes = 0,
      Reason = ''matches include pattern '' @ [CHR 0x27] @ n @ [CHR 0x27],
      NewestMTime = march_9 0\<rparr>"

text \<open>The test configuration with \<^verbatim>\<open>vendor\<close> excluded as well as included, and with a depth limit.\<close>

definition vendor_excluded_cfg :: Config where
  "vendor_excluded_cfg = test_cfg\<lparr>ExcludeNames := ExcludeNames test_cfg @ [''vendor'']\<rparr>"

definition depth_2_cfg :: Config where
  "depth_2_cfg = test_cfg\<lparr>MaxDepth := 2\<rparr>"

text \<open>
  Two candidates for the size calculation. Below \<^verbatim>\<open>/w/a\<close> lie a file of 1024 bytes and a
  subdirectory with a file of 2048 bytes, as in the test of the calculator. Below
  \<^verbatim>\<open>/w/b\<close> lie a file of 1024 bytes, then a directory that cannot be read for a reason
  other than permissions or absence, then a file of 2048 bytes.
\<close>

definition file_of_size :: "64 word \<Rightarrow> dnode" where
  "file_of_size n = FileN (Inr \<lparr>Size = n, ModTime = march_9 0, ModeSymlink = False\<rparr>)"

definition size_lstat :: "string \<Rightarrow> os_error + dnode" where
  "size_lstat p =
     (if p = ''/w/a'' then
        Inr (DirN plain_info
               [(''file1.txt'', file_of_size 1024),
                (''subdir'', DirN plain_info [(''file2.txt'', file_of_size 2048)] None)] None)
      else if p = ''/w/b'' then
        Inr (DirN plain_info
               [(''a.bin'', file_of_size 1024),
                (''broken'', DirN plain_info [(''x.bin'', file_of_size 4096)] (Some EIO)),
                (''z.bin'', file_of_size 2048)] None)
      else Inl ENOENT)"

definition cand_a :: Candidate where
  "cand_a = test_candidate ''/w/a'' ''a''"

definition cand_b :: Candidate where
  "cand_b = test_candidate ''/w/b'' ''b''"

section \<open>Properties\<close>

subsection \<open>Paths\<close>

lemma split_sep_nonempty: "split_sep s \<noteq> []"
  by (induction s) (auto split: list.splits)

lemma split_sep_nosep: "filepath_Separator \<notin> set a \<Longrightarrow> split_sep a = [a]"
  by (induction a) auto

lemma split_sep_append:
  "split_sep (x @ filepath_Separator # y) = split_sep x @ split_sep y"
proof (induction x)
  case Nil
  then show ?case by simp
next
  case (Cons c x)
  obtain w ws where "split_sep x = w # ws"
    using split_sep_nonempty by (cases "split_sep x") auto
  with Cons show ?case by simp
qed

lemma split_sep_elems: "list_all (\<lambda>c. filepath_Separator \<notin> set c) (split_sep s)"
  by (induction s) (auto split: list.splits)

lemma split_join_sep:
  "list_all (\<lambda>c. filepath_Separator \<notin> set c) cs \<Longrightarrow> cs \<noteq> [] \<Longrightarrow> split_sep (join_sep cs) = cs"
  by (induction cs rule: join_sep.induct) (auto simp: split_sep_nosep split_sep_append)

lemma clean_fold_valid:
  "list_all (\<lambda>c. c = [] \<or> valid_name c) xs \<Longrightarrow>
     foldl (clean_step r) out xs = out @ filter (\<lambda>c. c \<noteq> []) xs"
  by (induction xs arbitrary: out) (auto simp: clean_step_def valid_name_def)

lemma list_all_butlast: "list_all P xs \<Longrightarrow> list_all P (butlast xs)"
  by (induction xs) auto

lemma clean_step_keeps_valid:
  "filepath_Separator \<notin> set c \<Longrightarrow> list_all valid_name out \<Longrightarrow>
     list_all valid_name (clean_step True out c)"
  by (auto simp: clean_step_def valid_name_def list_all_butlast)

lemma clean_fold_keeps_valid:
  "list_all (\<lambda>c. filepath_Separator \<notin> set c) xs \<Longrightarrow> list_all valid_name out \<Longrightarrow>
     list_all valid_name (foldl (clean_step True) out xs)"
  by (induction xs arbitrary: out) (auto simp: clean_step_keeps_valid)

lemma valid_nosep: "list_all valid_name cs \<Longrightarrow> list_all (\<lambda>c. filepath_Separator \<notin> set c) cs"
  by (induction cs) (auto simp: valid_name_def)

lemma valid_or_empty: "list_all valid_name cs \<Longrightarrow> list_all (\<lambda>c. c = [] \<or> valid_name c) cs"
  by (induction cs) auto

lemma filter_valid: "list_all valid_name cs \<Longrightarrow> filter (\<lambda>c. c \<noteq> []) cs = cs"
  by (induction cs) (auto simp: valid_name_def)

lemma split_abs_path:
  "list_all valid_name cs \<Longrightarrow>
     split_sep (abs_path cs) = [] # (if cs = [] then [[]] else cs)"
  by (auto simp: abs_path_def split_join_sep valid_nosep)

lemma path_elems_abs_path: "list_all valid_name cs \<Longrightarrow> path_elems (abs_path cs) = cs"
  by (auto simp: path_elems_def split_abs_path filter_valid)

lemma is_rooted_abs_path: "is_rooted (abs_path cs)"
  by (simp add: is_rooted_def abs_path_def)

lemma Clean_abs_path:
  assumes "list_all valid_name cs"
  shows "filepath_Clean (abs_path cs) = abs_path cs"
proof -
  have "foldl (clean_step True) [] (split_sep (abs_path cs)) = cs"
    using assms
    by (auto simp: split_abs_path clean_fold_valid valid_or_empty filter_valid clean_step_def)
  then show ?thesis
    by (simp add: filepath_Clean_def is_rooted_abs_path) (simp add: abs_path_def)
qed

lemma clean_abs_is_abs_path:
  assumes "clean_abs a"
  shows "\<exists>cs. list_all valid_name cs \<and> a = abs_path cs"
proof -
  let ?st = "foldl (clean_step True) [] (split_sep a)"
  have "list_all valid_name ?st"
    by (rule clean_fold_keeps_valid) (simp_all add: split_sep_elems)
  moreover have "a = abs_path ?st"
    using assms by (auto simp: clean_abs_def filepath_Clean_def Let_def abs_path_def)
  ultimately show ?thesis by blast
qed

lemma join_sep_snoc:
  "join_sep (cs @ [n]) = (if cs = [] then n else join_sep cs @ filepath_Separator # n)"
  by (induction cs rule: join_sep.induct) auto

lemma Join_abs_path:
  assumes "list_all valid_name cs" "valid_name n"
  shows "filepath_Join [abs_path cs, n] = abs_path (cs @ [n])"
proof -
  have sp: "split_sep (abs_path cs @ filepath_Separator # n)
      = ([] # (if cs = [] then [[]] else cs)) @ [n]"
    using assms by (simp add: split_sep_append split_abs_path split_sep_nosep valid_name_def)
  have "list_all (\<lambda>c. c = [] \<or> valid_name c) (([] # (if cs = [] then [[]] else cs)) @ [n])"
    using assms by (auto simp: valid_or_empty)
  then have "foldl (clean_step True) [] (([] # (if cs = [] then [[]] else cs)) @ [n])
      = [] @ filter (\<lambda>c. c \<noteq> []) (([] # (if cs = [] then [[]] else cs)) @ [n])"
    by (rule clean_fold_valid)
  then have "foldl (clean_step True) [] (split_sep (abs_path cs @ filepath_Separator # n)) = cs @ [n]"
    unfolding sp using assms by (auto simp: filter_valid valid_name_def)
  moreover have "is_rooted (abs_path cs @ filepath_Separator # n)"
    by (simp add: is_rooted_def abs_path_def)
  ultimately show ?thesis
    by (simp add: filepath_Join_def filepath_Clean_def abs_path_def)
qed

lemma descend_abs_path:
  "list_all valid_name cs \<Longrightarrow> list_all valid_name ds \<Longrightarrow>
     descend (abs_path cs) ds = abs_path (cs @ ds)"
proof (induction ds arbitrary: cs)
  case Nil
  then show ?case by (simp add: descend_def)
next
  case (Cons d ds)
  have "descend (abs_path cs) (d # ds) = descend (filepath_Join [abs_path cs, d]) ds"
    by (simp add: descend_def)
  also have "\<dots> = descend (abs_path (cs @ [d])) ds"
    using Cons.prems by (simp add: Join_abs_path)
  also have "\<dots> = abs_path ((cs @ [d]) @ ds)"
    using Cons.prems by (intro Cons.IH) auto
  finally show ?case by simp
qed

lemma strip_common_prefix: "strip_common cs (cs @ ds) = ([], ds)"
proof (induction cs)
  case Nil
  then show ?case by (cases ds) auto
next
  case (Cons c cs)
  then show ?case by simp
qed

lemma Rel_abs_path:
  assumes "list_all valid_name cs" "list_all valid_name ds"
  shows "filepath_Rel (abs_path cs) (abs_path (cs @ ds))
      = Some (if ds = [] then ''.'' else join_sep ds)"
proof (cases "ds = []")
  case True
  then show ?thesis by (simp add: filepath_Rel_def)
next
  case False
  have v: "list_all valid_name (cs @ ds)" using assms by simp
  have ne: "abs_path (cs @ ds) \<noteq> abs_path cs"
  proof
    assume "abs_path (cs @ ds) = abs_path cs"
    then have "path_elems (abs_path (cs @ ds)) = path_elems (abs_path cs)" by simp
    then show False using False assms v by (simp add: path_elems_abs_path)
  qed
  have nd: "abs_path cs \<noteq> ''.''" by (simp add: abs_path_def filepath_Separator_def)
  show ?thesis
    using False ne nd assms v
    by (simp add: filepath_Rel_def Clean_abs_path is_rooted_abs_path path_elems_abs_path
        strip_common_prefix)
qed

lemma count_sep_nosep: "filepath_Separator \<notin> set x \<Longrightarrow> count_sep x = 0"
  by (induction x) (auto simp: count_sep_def)

lemma count_sep_append: "count_sep (x @ y) = count_sep x + count_sep y"
  by (simp add: count_sep_def)

lemma count_sep_join:
  "list_all valid_name ds \<Longrightarrow> count_sep (join_sep ds) = length ds - 1"
proof (induction ds rule: join_sep.induct)
  case 1
  then show ?case by (simp add: count_sep_def)
next
  case (2 x)
  then show ?case by (simp add: count_sep_nosep valid_name_def)
next
  case (3 x y ys)
  have "count_sep (join_sep (x # y # ys)) = count_sep x + count_sep (filepath_Separator # join_sep (y # ys))"
    by (simp add: count_sep_append)
  also have "\<dots> = 0 + Suc (count_sep (join_sep (y # ys)))"
    using 3 by (simp add: count_sep_nosep valid_name_def) (simp add: count_sep_def)
  finally show ?case using 3 by simp
qed

lemma Base_abs_path_snoc:
  assumes "valid_name n"
  shows "filepath_Base (abs_path (cs @ [n])) = n"
proof -
  obtain x where x: "abs_path (cs @ [n]) = x @ filepath_Separator # n"
    by (cases "cs = []") (auto simp: abs_path_def join_sep_snoc)
  have "last n \<noteq> filepath_Separator"
    using assms by (metis last_in_set valid_name_def)
  then have last: "rev n \<noteq> []" "hd (rev n) \<noteq> filepath_Separator"
    using assms by (simp_all add: valid_name_def hd_rev)
  then have dw: "dropWhile (\<lambda>c. c = filepath_Separator) (rev n @ filepath_Separator # rev x)
      = rev n @ filepath_Separator # rev x"
    by (cases "rev n") auto
  have tw: "takeWhile (\<lambda>c. c \<noteq> filepath_Separator) (rev n @ filepath_Separator # rev x) = rev n"
  proof -
    have "\<And>c. c \<in> set (rev n) \<Longrightarrow> c \<noteq> filepath_Separator"
      using assms by (auto simp: valid_name_def)
    then have "takeWhile (\<lambda>c. c \<noteq> filepath_Separator) (rev n @ filepath_Separator # rev x)
        = rev n @ takeWhile (\<lambda>c. c \<noteq> filepath_Separator) (filepath_Separator # rev x)"
      by (rule takeWhile_append2)
    then show ?thesis by simp
  qed
  show ?thesis
    unfolding x filepath_Base_def using assms dw tw
    by (simp add: Let_def valid_name_def)
qed

subsection \<open>Path exclusion\<close>

lemma HasPrefix_iff: "strings_HasPrefix s pre \<longleftrightarrow> (\<exists>rest. s = pre @ rest)"
proof
  assume "strings_HasPrefix s pre"
  then have "s = pre @ drop (length pre) s"
    by (metis append_take_drop_id strings_HasPrefix_def)
  then show "\<exists>rest. s = pre @ rest" ..
next
  assume "\<exists>rest. s = pre @ rest"
  then show "strings_HasPrefix s pre"
    by (auto simp: strings_HasPrefix_def)
qed

lemma excluded_under_iff:
  "excluded_under es path \<longleftrightarrow> (\<exists>e \<in> set es. \<exists>rest. path = e @ ''/'' @ rest)"
  by (induction es) (auto simp: HasPrefix_iff filepath_Separator_def)

text \<open>
  C8. The path-exclusion test of the scanner is true exactly when the path equals a stored
  exclude entry or begins with a stored entry followed by the path separator.
\<close>

theorem isPathExcluded_iff:
  "isPathExcluded s path \<longleftrightarrow>
     (\<exists>e \<in> set (excludePaths s). path = e \<or> (\<exists>rest. path = e @ ''/'' @ rest))"
  unfolding isPathExcluded_def by (auto simp: excluded_under_iff)

theorem isPathExcluded_iff_witness:
  "isPathExcluded (NewScanner Inr ((GetDefaults ''/home/u'' 4)\<lparr>ExcludePaths := [''/a/b'']\<rparr>))
     ''/a/b/c''
   \<and> \<not> isPathExcluded (NewScanner Inr ((GetDefaults ''/home/u'' 4)\<lparr>ExcludePaths := [''/a/b'']\<rparr>))
     ''/a/bc''
   \<and> (\<exists>e \<in> set (excludePaths
          (NewScanner Inr ((GetDefaults ''/home/u'' 4)\<lparr>ExcludePaths := [''/a/b'']\<rparr>))).
        ''/a/b/c'' = e \<or> (\<exists>rest. ''/a/b/c'' = e @ ''/'' @ rest))"
  using isPathExcluded_iff
    [of "NewScanner Inr ((GetDefaults ''/home/u'' 4)\<lparr>ExcludePaths := [''/a/b'']\<rparr>)" "''/a/b/c''"]
    isPathExcluded_iff
    [of "NewScanner Inr ((GetDefaults ''/home/u'' 4)\<lparr>ExcludePaths := [''/a/b'']\<rparr>)" "''/a/bc''"]
  by (simp add: NewScanner_def add_exclude_path_def)

subsection \<open>Scanning\<close>

lemma scan_visit_result:
  assumes "scan_visit s a path call cands = (cands', r)"
  shows "cands' = cands \<or>
     (\<exists>name d c. call = Entry name d \<and> cands' = cands @ [c] \<and> Path c = path \<and> passed s a path name)"
  using assms
  by (auto simp: scan_visit_def passed_def Let_def split: walk_call.splits if_splits option.splits)

lemma walk_scan_emits:
  "list_all valid_name ds \<Longrightarrow> valid_tree d \<Longrightarrow>
     walkDir (scan_visit s a) (descend a ds) (entry_name a ds) d cands = (cands', r) \<Longrightarrow>
     \<exists>new. cands' = cands @ new \<and> (\<forall>c \<in> set new. emitted s a c)"
  "list_all valid_name ds \<Longrightarrow> valid_entries es \<Longrightarrow>
     walkEntries (scan_visit s a) (descend a ds) es cands = (cands', r) \<Longrightarrow>
     \<exists>new. cands' = cands @ new \<and> (\<forall>c \<in> set new. emitted s a c)"
proof (induction d and es arbitrary: ds cands cands' r and ds cands cands' r
    rule: valid_tree_valid_entries.induct)
  case (1 info)
  from scan_visit_result[of s a "descend a ds" "Entry (entry_name a ds) (FileN info)" cands cands' r] 1
  show ?case by (auto simp: emitted_def)
next
  case (2 info entries rerr)
  obtain c1 r1 where v1: "scan_visit s a (descend a ds) (Entry (entry_name a ds) (DirN info entries rerr)) cands = (c1, r1)"
    by fastforce
  from scan_visit_result[OF v1] "2.prems"(1)
  have e1: "\<exists>new. c1 = cands @ new \<and> (\<forall>c \<in> set new. emitted s a c)"
    by (auto simp: emitted_def)
  show ?case
  proof (cases r1)
    case WNil
    obtain c2 r2 where v2: "(case rerr of None \<Rightarrow> (c1, WNil)
       | Some e \<Rightarrow> scan_visit s a (descend a ds) (ReadDirFailed (entry_name a ds) (DirN info entries rerr) e) c1) = (c2, r2)"
      by fastforce
    have c2: "c2 = c1"
      using v2 scan_visit_result[of s a "descend a ds" "ReadDirFailed (entry_name a ds) (DirN info entries rerr) _" c1 c2 r2]
      by (auto split: option.splits)
    show ?thesis
    proof (cases r2)
      case WNil
      with v1 v2 \<open>r1 = WNil\<close> "2.prems"(3)
      have "walkEntries (scan_visit s a) (descend a ds) entries c2 = (cands', r)"
        by simp
      from "2.IH"[OF "2.prems"(1) _ this] "2.prems"(2) e1 c2
      show ?thesis by auto
    next
      case WSkipDir
      with v1 v2 \<open>r1 = WNil\<close> "2.prems"(3) e1 c2 show ?thesis by auto
    next
      case (WErr e)
      with v1 v2 \<open>r1 = WNil\<close> "2.prems"(3) e1 c2 show ?thesis by auto
    qed
  next
    case WSkipDir
    with v1 "2.prems"(3) e1 show ?thesis by auto
  next
    case (WErr e)
    with v1 "2.prems"(3) e1 show ?thesis by auto
  qed
next
  case 3
  then show ?case by simp
next
  case (4 name1 d1 rest)
  have dn: "filepath_Join [descend a ds, name1] = descend a (ds @ [name1])"
    by (simp add: descend_def)
  have en: "name1 = entry_name a (ds @ [name1])"
    by (simp add: entry_name_def)
  obtain c1 r1 where w1: "walkDir (scan_visit s a) (descend a (ds @ [name1])) (entry_name a (ds @ [name1])) d1 cands = (c1, r1)"
    by fastforce
  have v: "list_all valid_name (ds @ [name1])" using "4.prems" by simp
  from "4.IH"(1)[OF v _ w1] "4.prems"(2)
  obtain new1 where n1: "c1 = cands @ new1" "\<forall>c \<in> set new1. emitted s a c" by auto
  show ?case
  proof (cases r1)
    case WNil
    with w1 "4.prems"(3) dn en
    have "walkEntries (scan_visit s a) (descend a ds) rest c1 = (cands', r)"
      by simp
    from "4.IH"(2)[OF "4.prems"(1) _ this] "4.prems"(2) n1
    show ?thesis by auto
  next
    case WSkipDir
    with w1 "4.prems"(3) dn en n1 show ?thesis by auto
  next
    case (WErr e)
    with w1 "4.prems"(3) dn en n1 show ?thesis by auto
  qed
qed

lemma set_map_add_keys: "set (map_add_keys m names) = set m \<union> set names"
  unfolding map_add_keys_def by (induction names arbitrary: m) auto

lemma walkdir_scan_emits:
  assumes "filepath_WalkDir (scan_visit s a) a lst [] = (cands, err)"
      and "\<forall>d. lst = Inr d \<longrightarrow> valid_tree d"
  shows "\<forall>c \<in> set cands. emitted s a c"
proof (cases lst)
  case (Inl e)
  obtain c1 r1 where v: "scan_visit s a a (LstatFailed e) [] = (c1, r1)" by fastforce
  from scan_visit_result[OF v] have "c1 = []" by auto
  with v Inl assms(1) show ?thesis
    by (auto simp: filepath_WalkDir_def split: walk_ret.splits)
next
  case (Inr d)
  obtain c1 r1 where w: "walkDir (scan_visit s a) (descend a []) (entry_name a []) d [] = (c1, r1)"
    by fastforce
  from walk_scan_emits(1)[OF _ _ w] assms(2) Inr
  have "\<forall>c \<in> set c1. emitted s a c" by auto
  moreover have "cands = c1"
    using w Inr assms(1)
    by (auto simp: filepath_WalkDir_def descend_def entry_name_def split: walk_ret.splits)
  ultimately show ?thesis by simp
qed

lemma scanPath_emits:
  assumes "scanPath absf lstat s root = Inr cands"
      and "\<forall>a d. absf root = Inr a \<longrightarrow> lstat a = Inr d \<longrightarrow> valid_tree d"
  shows "\<forall>c \<in> set cands. \<exists>a. absf root = Inr a \<and> emitted s a c"
proof (cases "absf root")
  case (Inl e)
  with assms(1) show ?thesis by (simp add: scanPath_def)
next
  case (Inr a)
  show ?thesis
  proof (cases "isPathExcluded s a")
    case True
    with Inr assms(1) show ?thesis by (simp add: scanPath_def)
  next
    case False
    obtain c1 e1 where w: "filepath_WalkDir (scan_visit s a) a (lstat a) [] = (c1, e1)"
      by fastforce
    with Inr False assms(1) have "c1 = cands"
      by (auto simp: scanPath_def split: option.splits)
    moreover from walkdir_scan_emits[OF w] assms(2) Inr
    have "\<forall>c \<in> set c1. emitted s a c" by auto
    ultimately show ?thesis using Inr by auto
  qed
qed

lemma scan_loop_emits:
  assumes "scan_loop absf lstat s roots acc = Inr cands"
      and "\<forall>root \<in> set roots. \<forall>a d. absf root = Inr a \<longrightarrow> lstat a = Inr d \<longrightarrow> valid_tree d"
  shows "\<forall>c \<in> set cands. c \<in> set acc \<or>
           (\<exists>root \<in> set roots. \<exists>a. absf root = Inr a \<and> emitted s a c)"
  using assms
proof (induction roots arbitrary: acc)
  case Nil
  then show ?case by simp
next
  case (Cons r roots)
  from Cons.prems(1) obtain cs where sp: "scanPath absf lstat s r = Inr cs"
    and rest: "scan_loop absf lstat s roots (acc @ cs) = Inr cands"
    by (auto split: sum.splits)
  from scanPath_emits[OF sp] Cons.prems(2)
  have e: "\<forall>c \<in> set cs. \<exists>a. absf r = Inr a \<and> emitted s a c" by simp
  from Cons.IH[OF rest] Cons.prems(2)
  have "\<forall>c \<in> set cands. c \<in> set (acc @ cs) \<or>
           (\<exists>root \<in> set roots. \<exists>a. absf root = Inr a \<and> emitted s a c)" by simp
  with e show ?case by fastforce
qed

lemma ScanPaths_emits:
  assumes "Scanner_ScanPaths absf lstat s = Inr cands"
      and "\<forall>root \<in> set (ScanPaths (config s)). \<forall>a d.
             absf root = Inr a \<longrightarrow> lstat a = Inr d \<longrightarrow> valid_tree d"
      and "c \<in> set cands"
  shows "\<exists>root \<in> set (ScanPaths (config s)). \<exists>a. absf root = Inr a \<and> emitted s a c"
  using scan_loop_emits[OF assms(1)[unfolded Scanner_ScanPaths_def] assms(2)] assms(3)
  by auto

lemma Base_descend:
  assumes "clean_abs a" "list_all valid_name ds"
  shows "filepath_Base (descend a ds) = entry_name a ds"
proof (cases "ds = []")
  case True
  then show ?thesis by (simp add: descend_def entry_name_def)
next
  case False
  from clean_abs_is_abs_path[OF assms(1)]
  obtain cs where cs: "list_all valid_name cs" "a = abs_path cs" by blast
  from False have ds: "ds = butlast ds @ [last ds]" by simp
  have vl: "valid_name (last ds)"
    using assms(2) False by (simp add: list_all_iff)
  have "descend a ds = abs_path ((cs @ butlast ds) @ [last ds])"
    using cs assms(2) ds by (simp add: descend_abs_path)
  then show ?thesis
    using vl False by (simp only: Base_abs_path_snoc entry_name_def if_False)
qed

lemma depth_descend:
  assumes "clean_abs a" "list_all valid_name ds"
  shows "filepath_Rel a (descend a ds) = Some (if ds = [] then ''.'' else join_sep ds)"
proof -
  from clean_abs_is_abs_path[OF assms(1)]
  obtain cs where cs: "list_all valid_name cs" "a = abs_path cs" by blast
  then show ?thesis
    using assms(2) by (simp add: descend_abs_path Rel_abs_path)
qed

text \<open>
  C4. A scan that succeeds reports no candidate whose base name is in \<^verbatim>\<open>excludeNames\<close>,
  whether or not the name is in \<^verbatim>\<open>includeNames\<close> as well: at every directory the
  exclude-name check comes before the include-name check. The file system is assumed to
  be well formed: \<^verbatim>\<open>filepath.Abs\<close> gives cleaned absolute paths and entry names are
  valid.
\<close>

theorem excluded_name_is_never_reported:
  assumes "Scanner_ScanPaths absf lstat (NewScanner absf cfg) = Inr candidates"
      and "\<forall>root \<in> set (ScanPaths cfg). \<forall>a. absf root = Inr a \<longrightarrow>
             clean_abs a \<and> (\<forall>d. lstat a = Inr d \<longrightarrow> valid_tree d)"
      and "name \<in> set (ExcludeNames cfg)"
  shows "\<forall>c \<in> set candidates. filepath_Base (Path c) \<noteq> name"
proof
  fix c assume c: "c \<in> set candidates"
  let ?s = "NewScanner absf cfg"
  have cfg: "config ?s = cfg" by (simp add: NewScanner_def)
  from ScanPaths_emits[OF assms(1) _ c] assms(2) cfg
  obtain root a where r: "root \<in> set (ScanPaths cfg)" "absf root = Inr a" "emitted ?s a c"
    by auto
  from r(3) obtain ds where ds: "list_all valid_name ds" "Path c = descend a ds"
    "passed ?s a (descend a ds) (entry_name a ds)"
    by (auto simp: emitted_def)
  from r assms(2) have "clean_abs a" by blast
  from Base_descend[OF this ds(1)] ds(2)
  have "filepath_Base (Path c) = entry_name a ds" by simp
  moreover from ds(3) have "entry_name a ds \<notin> set (excludeMap ?s)"
    by (simp add: passed_def)
  moreover have "set (excludeMap ?s) = set (ExcludeNames cfg)"
    by (simp add: NewScanner_def set_map_add_keys)
  ultimately show "filepath_Base (Path c) \<noteq> name"
    using assms(3) by auto
qed

theorem excluded_name_is_never_reported_witness:
  "Scanner_ScanPaths Inr test_lstat (NewScanner Inr vendor_excluded_cfg)
     = Inr [test_candidate ''/w/project1/deep/nested/target'' ''target'',
            test_candidate ''/w/project1/node_modules'' ''node_modules'']
   \<and> ''vendor'' \<in> set (IncludeNames vendor_excluded_cfg)
   \<and> ''vendor'' \<in> set (ExcludeNames vendor_excluded_cfg)
   \<and> filepath_Base ''/w/project1/deep/nested/target'' \<noteq> ''vendor''
   \<and> filepath_Base ''/w/project1/node_modules'' \<noteq> ''vendor''"
proof -
  let ?cands = "[test_candidate ''/w/project1/deep/nested/target'' ''target'',
                 test_candidate ''/w/project1/node_modules'' ''node_modules'']"
  have run: "Scanner_ScanPaths Inr test_lstat (NewScanner Inr vendor_excluded_cfg) = Inr ?cands"
    by code_simp
  have roots: "ScanPaths vendor_excluded_cfg = [''/w'']"
    by (simp add: vendor_excluded_cfg_def test_cfg_def)
  have ca: "clean_abs ''/w''" by code_simp
  have vt: "valid_tree test_tree" by code_simp
  have wf: "\<forall>root \<in> set (ScanPaths vendor_excluded_cfg). \<forall>a. Inr root = Inr a \<longrightarrow>
             clean_abs a \<and> (\<forall>d. test_lstat a = Inr d \<longrightarrow> valid_tree d)"
    using ca vt by (simp add: roots test_lstat_def)
  have inc: "''vendor'' \<in> set (IncludeNames vendor_excluded_cfg)" by code_simp
  have exc: "''vendor'' \<in> set (ExcludeNames vendor_excluded_cfg)" by code_simp
  from excluded_name_is_never_reported [OF run wf exc]
  have "\<forall>c \<in> set ?cands. filepath_Base (Path c) \<noteq> ''vendor''" .
  then have "filepath_Base ''/w/project1/deep/nested/target'' \<noteq> ''vendor''
      \<and> filepath_Base ''/w/project1/node_modules'' \<noteq> ''vendor''"
    by (simp add: test_candidate_def)
  with run inc exc show ?thesis by blast
qed

lemma spec_depth_descend:
  assumes "clean_abs a" "list_all valid_name ds"
  shows "spec_depth a (descend a ds) = Some (length ds)"
proof (cases "ds = []")
  case True
  with depth_descend[OF assms] show ?thesis by (simp add: spec_depth_def)
next
  case False
  have c: "count_sep (join_sep ds) = length ds - 1"
    by (rule count_sep_join[OF assms(2)])
  have "join_sep ds \<noteq> ''.''"
  proof
    assume dot: "join_sep ds = ''.''"
    then have "count_sep (join_sep ds) = 0"
      by (simp add: count_sep_def filepath_Separator_def)
    with c False obtain x where "ds = [x]" by (cases ds) auto
    with dot assms(2) show False by (simp add: valid_name_def)
  qed
  with depth_descend[OF assms] False c show ?thesis
    by (cases ds) (auto simp: spec_depth_def)
qed

text \<open>
  C7, as stated, fails. The claim counts depth from the scan root, which has depth 0, so
  that a directory \<open>N\<close> levels below the root has depth \<open>N\<close> and is to be pruned. The
  scanner's depth is the number of separators in the path relative to the root, and 0
  for the root itself: the root and its entries both have depth 0, and a directory \<open>N\<close>
  levels below the root has depth \<open>N - 1\<close>. With \<^verbatim>\<open>maxDepth = 2\<close> the directory
  \<^verbatim>\<open>/w/project2/vendor\<close>, at depth 2 below the root \<^verbatim>\<open>/w\<close>, is classified and reported,
  as the scanner's own test expects.
\<close>

theorem directory_at_max_depth_is_reported:
  "MaxDepth (config (NewScanner Inr depth_2_cfg)) = 2
   \<and> spec_depth ''/w'' ''/w/project2/vendor'' = Some 2
   \<and> Scanner_ScanPaths Inr test_lstat (NewScanner Inr depth_2_cfg)
       = Inr [test_candidate ''/w/project1/node_modules'' ''node_modules'',
              test_candidate ''/w/project2/vendor'' ''vendor'']"
  by code_simp

text \<open>
  C7, amended. With \<^verbatim>\<open>maxDepth = N > 0\<close>, every reported candidate lies at most \<open>N\<close>
  levels below its scan root. The depth that the scanner computes for a directory is one
  less than the number of levels (and 0 for the root), and a reported candidate has a
  computed depth below \<open>N\<close>: a directory is skipped before it is classified when its
  computed depth is \<open>N\<close> or more, that is from \<open>N + 1\<close> levels below the root on.
\<close>

theorem candidates_within_max_depth:
  assumes "Scanner_ScanPaths absf lstat s = Inr candidates"
      and "\<forall>root \<in> set (ScanPaths (config s)). \<forall>a. absf root = Inr a \<longrightarrow>
             clean_abs a \<and> (\<forall>d. lstat a = Inr d \<longrightarrow> valid_tree d)"
      and "MaxDepth (config s) > 0"
      and "c \<in> set candidates"
  shows "\<exists>root \<in> set (ScanPaths (config s)). \<exists>a names.
           absf root = Inr a \<and> list_all valid_name names \<and> Path c = descend a names \<and>
           spec_depth a (Path c) = Some (length names) \<and>
           int (length names) \<le> MaxDepth (config s) \<and>
           (\<exists>relPath. filepath_Rel a (Path c) = Some relPath \<and>
              (if relPath = ''.'' then 0 else int (count_sep relPath)) = int (length names - 1) \<and>
              (if relPath = ''.'' then 0 else int (count_sep relPath)) < MaxDepth (config s))"
proof -
  from ScanPaths_emits[OF assms(1) _ assms(4)] assms(2)
  obtain root a where r: "root \<in> set (ScanPaths (config s))" "absf root = Inr a" "emitted s a c"
    by auto
  from r(3) obtain ds where ds: "list_all valid_name ds" "Path c = descend a ds"
    "passed s a (descend a ds) (entry_name a ds)"
    by (auto simp: emitted_def)
  from r assms(2) have ca: "clean_abs a" by blast
  note rel = depth_descend[OF ca ds(1)]
  let ?rel = "if ds = [] then ''.'' else join_sep ds"
  let ?depth = "if ?rel = ''.'' then 0 else int (count_sep ?rel)"
  from ds(3) rel assms(3) have d: "?depth < MaxDepth (config s)"
    by (auto simp: passed_def)
  from spec_depth_descend[OF ca ds(1)] ds(2)
  have sd: "spec_depth a (Path c) = Some (length ds)" by simp
  have eq: "?depth = int (length ds - 1)"
  proof (cases "ds = []")
    case True
    then show ?thesis by simp
  next
    case False
    have c: "count_sep (join_sep ds) = length ds - 1"
      by (rule count_sep_join[OF ds(1)])
    show ?thesis
    proof (cases "join_sep ds = ''.''")
      case True
      then have "count_sep (join_sep ds) = 0"
        by (simp add: count_sep_def filepath_Separator_def)
      with c True False show ?thesis by simp
    next
      case False
      with c \<open>ds \<noteq> []\<close> show ?thesis by simp
    qed
  qed
  have len: "int (length ds) \<le> MaxDepth (config s)"
    using d eq assms(3) by (cases ds) auto
  from rel ds(2) have rel': "filepath_Rel a (Path c) = Some ?rel" by simp
  have ex: "\<exists>relPath. filepath_Rel a (Path c) = Some relPath \<and>
              (if relPath = ''.'' then 0 else int (count_sep relPath)) = int (length ds - 1) \<and>
              (if relPath = ''.'' then 0 else int (count_sep relPath)) < MaxDepth (config s)"
    by (rule exI[of _ ?rel]) (intro conjI rel' eq d)
  from r(1,2) ds(1,2) sd len ex show ?thesis by blast
qed

theorem candidates_within_max_depth_witness:
  "Scanner_ScanPaths Inr test_lstat (NewScanner Inr depth_2_cfg)
     = Inr [test_candidate ''/w/project1/node_modules'' ''node_modules'',
            test_candidate ''/w/project2/vendor'' ''vendor'']
   \<and> MaxDepth (config (NewScanner Inr depth_2_cfg)) = 2
   \<and> (\<exists>names. list_all valid_name names \<and> ''/w/project1/node_modules'' = descend ''/w'' names \<and>
         spec_depth ''/w'' ''/w/project1/node_modules'' = Some (length names) \<and>
         int (length names) \<le> 2 \<and>
         (\<exists>relPath. filepath_Rel ''/w'' ''/w/project1/node_modules'' = Some relPath \<and>
            (if relPath = ''.'' then 0 else int (count_sep relPath)) = int (length names - 1) \<and>
            (if relPath = ''.'' then 0 else int (count_sep relPath)) < 2))"
proof -
  let ?s = "NewScanner Inr depth_2_cfg"
  let ?c = "test_candidate ''/w/project1/node_modules'' ''node_modules''"
  let ?cands = "[?c, test_candidate ''/w/project2/vendor'' ''vendor'']"
  have run: "Scanner_ScanPaths Inr test_lstat ?s = Inr ?cands"
    by code_simp
  have cfg: "config ?s = depth_2_cfg" by (simp add: NewScanner_def)
  have roots: "ScanPaths depth_2_cfg = [''/w'']"
    by (simp add: depth_2_cfg_def test_cfg_def)
  have md: "MaxDepth depth_2_cfg = 2"
    by (simp add: depth_2_cfg_def)
  have ca: "clean_abs ''/w''" by code_simp
  have vt: "valid_tree test_tree" by code_simp
  have wf: "\<forall>root \<in> set (ScanPaths (config ?s)). \<forall>a. Inr root = Inr a \<longrightarrow>
             clean_abs a \<and> (\<forall>d. test_lstat a = Inr d \<longrightarrow> valid_tree d)"
    using ca vt by (simp add: cfg roots test_lstat_def)
  have pos: "MaxDepth (config ?s) > 0" by (simp add: cfg md)
  have mem: "?c \<in> set ?cands" by simp
  from candidates_within_max_depth [OF run wf pos mem]
  have "\<exists>names. list_all valid_name names \<and> ''/w/project1/node_modules'' = descend ''/w'' names \<and>
         spec_depth ''/w'' ''/w/project1/node_modules'' = Some (length names) \<and>
         int (length names) \<le> 2 \<and>
         (\<exists>relPath. filepath_Rel ''/w'' ''/w/project1/node_modules'' = Some relPath \<and>
            (if relPath = ''.'' then 0 else int (count_sep relPath)) = int (length names - 1) \<and>
            (if relPath = ''.'' then 0 else int (count_sep relPath)) < 2)"
    by (simp add: cfg roots md test_candidate_def)
  with run cfg md show ?thesis by simp
qed

subsection \<open>The size walk\<close>

text \<open>
  The walk of \<^verbatim>\<open>calculateDirectorySize\<close> never skips. When it meets a directory that cannot
  be read, for a reason other than permissions or absence, it stops there: the total is
  what the entries before that directory gave, and neither its entries nor the entries
  after it are added.
\<close>

lemma size_visit_no_skip: "snd (size_visit path call tot) \<noteq> WSkipDir"
  by (simp add: size_visit_def split: walk_call.splits sum.splits)

lemma size_walk_no_skip:
  "snd (walkDir size_visit path name d tot) \<noteq> WSkipDir"
  "snd (walkEntries size_visit path es tot) \<noteq> WSkipDir"
proof (induction d and es arbitrary: path name tot and path tot
    rule: valid_tree_valid_entries.induct)
  case (1 info)
  then show ?case by (simp add: size_visit_no_skip)
next
  case (2 info entries rerr)
  then show ?case
    by (auto split: prod.splits walk_ret.splits option.splits)
next
  case 3
  then show ?case by simp
next
  case (4 name1 d1 rest)
  then show ?case
    by (auto split: prod.splits walk_ret.splits)
qed

lemma size_walk_append:
  "walkEntries size_visit path (xs @ ys) tot =
     (case walkEntries size_visit path xs tot of
        (t1, WErr e) \<Rightarrow> (t1, WErr e)
      | (t1, r) \<Rightarrow> walkEntries size_visit path ys t1)"
proof (induction xs arbitrary: tot)
  case Nil
  then show ?case by simp
next
  case (Cons x xs)
  obtain name1 d1 where x: "x = (name1, d1)" by (cases x)
  obtain t1 r1 where w: "walkDir size_visit (filepath_Join [path, name1]) name1 d1 tot = (t1, r1)"
    by fastforce
  have "r1 \<noteq> WSkipDir"
    using size_walk_no_skip(1)[of "filepath_Join [path, name1]" name1 d1 tot] w by simp
  with w x Cons show ?case
    by (cases r1) (auto split: prod.splits walk_ret.splits)
qed

lemma size_walk_stops_at_failure:
  assumes "walkEntries size_visit path before tot = (t1, WNil)"
      and "\<not> os_IsPermission e" "\<not> os_IsNotExist e"
  shows "walkEntries size_visit path (before @ (name1, DirN info entries (Some e)) # after) tot
           = (t1, WErr e)"
  using assms
  by (simp add: size_walk_append size_visit_def)

subsection \<open>The size calculation: what every execution keeps\<close>

lemma filter_update_length:
  "w < length xs \<Longrightarrow>
     length (filter P (xs[w := x])) + (if P (xs ! w) then 1 else 0)
       = length (filter P xs) + (if P x then 1 else 0)"
proof (induction xs arbitrary: w)
  case Nil
  then show ?case by simp
next
  case (Cons a xs)
  then show ?case by (cases w) auto
qed

lemma calc_invI:
  assumes "sent s \<le> length candidates"
      and "length (results s) = length candidates"
      and "length (jobs s) \<le> sent s"
      and "[taken s ..< sent s] = jobs s"
      and "bar s + length (filter is_summing (workers s)) = taken s"
      and "\<And>w i. w < length (workers s) \<Longrightarrow> workers s ! w = Summing i \<Longrightarrow> i < taken s"
      and "\<And>w w' i. w < length (workers s) \<Longrightarrow> w' < length (workers s) \<Longrightarrow>
             workers s ! w = Summing i \<Longrightarrow> workers s ! w' = Summing i \<Longrightarrow> w' = w"
      and "\<And>i. i < taken s \<Longrightarrow> (\<exists>w < length (workers s). workers s ! w = Summing i) \<or>
             results s ! i = sized lstat (candidates ! i)"
      and "group_err s \<noteq> None \<Longrightarrow> ctx_err s \<noteq> None"
  shows "calc_inv lstat candidates s"
  unfolding calc_inv_def using assms by blast

lemma calc_invD:
  assumes "calc_inv lstat candidates s"
  shows "sent s \<le> length candidates"
    and "length (results s) = length candidates"
    and "length (jobs s) \<le> sent s"
    and "[taken s ..< sent s] = jobs s"
    and "bar s + length (filter is_summing (workers s)) = taken s"
    and "\<And>w i. w < length (workers s) \<Longrightarrow> workers s ! w = Summing i \<Longrightarrow> i < taken s"
    and "\<And>w w' i. w < length (workers s) \<Longrightarrow> w' < length (workers s) \<Longrightarrow>
             workers s ! w = Summing i \<Longrightarrow> workers s ! w' = Summing i \<Longrightarrow> w' = w"
    and "\<And>i. i < taken s \<Longrightarrow> (\<exists>w < length (workers s). workers s ! w = Summing i) \<or>
             results s ! i = sized lstat (candidates ! i)"
    and "group_err s \<noteq> None \<Longrightarrow> ctx_err s \<noteq> None"
  using assms unfolding calc_inv_def by blast+

lemma calc_inv_init: "calc_inv lstat candidates (calc_init W ctx0 candidates)"
  by (rule calc_invI) (simp_all add: calc_init_def taken_def)

lemma inv_cancel:
  assumes "calc_inv lstat candidates s"
  shows "calc_inv lstat candidates (s\<lparr>ctx_err := Some e\<rparr>)"
proof -
  have t: "taken (s\<lparr>ctx_err := Some e\<rparr>) = taken s" by (simp add: taken_def)
  note d = calc_invD[OF assms]
  show ?thesis
    by (rule calc_invI; (simp only: t)?) (use d in \<open>simp_all\<close>)
qed

lemma inv_close:
  assumes "calc_inv lstat candidates s"
  shows "calc_inv lstat candidates (s\<lparr>jobs_closed := True\<rparr>)"
proof -
  have t: "taken (s\<lparr>jobs_closed := True\<rparr>) = taken s" by (simp add: taken_def)
  note d = calc_invD[OF assms]
  show ?thesis
    by (rule calc_invI; (simp only: t)?) (use d in \<open>simp_all\<close>)
qed

lemma inv_send:
  assumes "calc_inv lstat candidates s" "sent s < length candidates"
  shows "calc_inv lstat candidates (s\<lparr>jobs := jobs s @ [sent s], sent := Suc (sent s)\<rparr>)"
proof -
  let ?s' = "s\<lparr>jobs := jobs s @ [sent s], sent := Suc (sent s)\<rparr>"
  note d = calc_invD[OF assms(1)]
  have t: "taken ?s' = taken s"
    using d(3) by (simp add: taken_def)
  have "taken s \<le> sent s" by (simp add: taken_def)
  then have j: "[taken s ..< Suc (sent s)] = jobs s @ [sent s]"
    using d(4) by simp
  show ?thesis
  proof (rule calc_invI; (simp only: t)?)
    show "sent ?s' \<le> length candidates" using assms(2) by simp
    show "length (results ?s') = length candidates" using d(2) by simp
    show "length (jobs ?s') \<le> sent ?s'" using d(3) by simp
    show "[taken s ..< sent ?s'] = jobs ?s'" using j by simp
    show "bar ?s' + length (filter is_summing (workers ?s')) = taken s" using d(5) by simp
    show "\<And>w i. w < length (workers ?s') \<Longrightarrow> workers ?s' ! w = Summing i \<Longrightarrow> i < taken s"
      using d(6) by simp
    show "\<And>w w' i. w < length (workers ?s') \<Longrightarrow> w' < length (workers ?s') \<Longrightarrow>
             workers ?s' ! w = Summing i \<Longrightarrow> workers ?s' ! w' = Summing i \<Longrightarrow> w' = w"
      using d(7) by simp
    show "\<And>i. i < taken s \<Longrightarrow> (\<exists>w < length (workers ?s'). workers ?s' ! w = Summing i) \<or>
             results ?s' ! i = sized lstat (candidates ! i)"
      using d(8) by simp
    show "group_err ?s' \<noteq> None \<Longrightarrow> ctx_err ?s' \<noteq> None" using d(9) by simp
  qed
qed

lemma inv_receive:
  assumes "calc_inv lstat candidates s" "w < length (workers s)" "workers s ! w = AtSelect"
      and "jobs s = idx # rest"
  shows "calc_inv lstat candidates (s\<lparr>jobs := rest, workers := (workers s)[w := Summing idx]\<rparr>)"
proof -
  let ?s' = "s\<lparr>jobs := rest, workers := (workers s)[w := Summing idx]\<rparr>"
  note d = calc_invD[OF assms(1)]
  have le: "Suc (length rest) \<le> sent s" using d(3) assms(4) by simp
  have t: "taken ?s' = Suc (taken s)"
    using le assms(4) by (simp add: taken_def)
  have "[taken s ..< sent s] = idx # rest" using d(4) assms(4) by simp
  then have u: "idx = taken s" "rest = [Suc (taken s) ..< sent s]"
    by (auto simp: upt_eq_Cons_conv)
  have f: "length (filter is_summing ((workers s)[w := Summing idx]))
      = Suc (length (filter is_summing (workers s)))"
    using filter_update_length[OF assms(2), of is_summing "Summing idx"] assms(3) by simp
  show ?thesis
  proof (rule calc_invI; (simp only: t)?)
    show "sent ?s' \<le> length candidates" using d(1) by simp
    show "length (results ?s') = length candidates" using d(2) by simp
    show "length (jobs ?s') \<le> sent ?s'" using le by simp
    show "[Suc (taken s) ..< sent ?s'] = jobs ?s'" using u(2) by simp
    show "bar ?s' + length (filter is_summing (workers ?s')) = Suc (taken s)"
      using d(5) f by simp
    show "\<And>v i. v < length (workers ?s') \<Longrightarrow> workers ?s' ! v = Summing i \<Longrightarrow> i < Suc (taken s)"
    proof -
      fix v i assume a: "v < length (workers ?s')" "workers ?s' ! v = Summing i"
      show "i < Suc (taken s)"
      proof (cases "v = w")
        case True
        with a assms(2) u(1) show ?thesis by simp
      next
        case False
        with a d(6)[of v i] show ?thesis by simp
      qed
    qed
    show "\<And>v v' i. v < length (workers ?s') \<Longrightarrow> v' < length (workers ?s') \<Longrightarrow>
             workers ?s' ! v = Summing i \<Longrightarrow> workers ?s' ! v' = Summing i \<Longrightarrow> v' = v"
    proof -
      fix v v' i
      assume a: "v < length (workers ?s')" "v' < length (workers ?s')"
        "workers ?s' ! v = Summing i" "workers ?s' ! v' = Summing i"
      show "v' = v"
      proof (cases "v = w \<or> v' = w")
        case False
        with a d(7)[of v v' i] show ?thesis by simp
      next
        case True
        show ?thesis
        proof (rule ccontr)
          assume ne: "v' \<noteq> v"
          from True ne consider "v = w" "v' \<noteq> w" | "v' = w" "v \<noteq> w" by auto
          then show False
          proof cases
            case 1
            with a assms(2) have "i = idx" "workers s ! v' = Summing i" "v' < length (workers s)"
              by simp_all
            with d(6)[of v' i] u(1) show False by simp
          next
            case 2
            with a assms(2) have "i = idx" "workers s ! v = Summing i" "v < length (workers s)"
              by simp_all
            with d(6)[of v i] u(1) show False by simp
          qed
        qed
      qed
    qed
    show "\<And>i. i < Suc (taken s) \<Longrightarrow> (\<exists>v < length (workers ?s'). workers ?s' ! v = Summing i) \<or>
             results ?s' ! i = sized lstat (candidates ! i)"
    proof -
      fix i assume "i < Suc (taken s)"
      then consider "i = taken s" | "i < taken s" by linarith
      then show "(\<exists>v < length (workers ?s'). workers ?s' ! v = Summing i) \<or>
             results ?s' ! i = sized lstat (candidates ! i)"
      proof cases
        case 1
        with u(1) assms(2) show ?thesis by (auto intro!: exI[of _ w])
      next
        case 2
        from d(8)[OF 2] show ?thesis
        proof
          assume "\<exists>v < length (workers s). workers s ! v = Summing i"
          then obtain v where v: "v < length (workers s)" "workers s ! v = Summing i" by blast
          with assms(3) have "v \<noteq> w" by auto
          with v show ?thesis by (auto intro!: exI[of _ v])
        next
          assume "results s ! i = sized lstat (candidates ! i)"
          then show ?thesis by simp
        qed
      qed
    qed
    show "group_err ?s' \<noteq> None \<Longrightarrow> ctx_err ?s' \<noteq> None" using d(9) by simp
  qed
qed

lemma inv_complete:
  assumes "calc_inv lstat candidates s" "w < length (workers s)" "workers s ! w = Summing idx"
      and "idx < length candidates"
  shows "calc_inv lstat candidates
     (s\<lparr>results := (results s)[idx := sized lstat (candidates ! idx)],
        bar := Suc (bar s), workers := (workers s)[w := AtSelect]\<rparr>)"
proof -
  let ?s' = "s\<lparr>results := (results s)[idx := sized lstat (candidates ! idx)],
        bar := Suc (bar s), workers := (workers s)[w := AtSelect]\<rparr>"
  note d = calc_invD[OF assms(1)]
  have t: "taken ?s' = taken s" by (simp add: taken_def)
  have f: "Suc (length (filter is_summing ((workers s)[w := AtSelect])))
      = length (filter is_summing (workers s))"
    using filter_update_length[OF assms(2), of is_summing AtSelect] assms(3) by simp
  show ?thesis
  proof (rule calc_invI; (simp only: t)?)
    show "sent ?s' \<le> length candidates" using d(1) by simp
    show "length (results ?s') = length candidates" using d(2) by simp
    show "length (jobs ?s') \<le> sent ?s'" using d(3) by simp
    show "[taken s ..< sent ?s'] = jobs ?s'" using d(4) by simp
    show "bar ?s' + length (filter is_summing (workers ?s')) = taken s"
      using d(5) f by simp
    show "\<And>v i. v < length (workers ?s') \<Longrightarrow> workers ?s' ! v = Summing i \<Longrightarrow> i < taken s"
    proof -
      fix v i assume a: "v < length (workers ?s')" "workers ?s' ! v = Summing i"
      with assms(2) have "v \<noteq> w" by auto
      with a d(6)[of v i] show "i < taken s" by simp
    qed
    show "\<And>v v' i. v < length (workers ?s') \<Longrightarrow> v' < length (workers ?s') \<Longrightarrow>
             workers ?s' ! v = Summing i \<Longrightarrow> workers ?s' ! v' = Summing i \<Longrightarrow> v' = v"
    proof -
      fix v v' i
      assume a: "v < length (workers ?s')" "v' < length (workers ?s')"
        "workers ?s' ! v = Summing i" "workers ?s' ! v' = Summing i"
      with assms(2) have "v \<noteq> w" "v' \<noteq> w" by auto
      with a d(7)[of v v' i] show "v' = v" by simp
    qed
    show "\<And>i. i < taken s \<Longrightarrow> (\<exists>v < length (workers ?s'). workers ?s' ! v = Summing i) \<or>
             results ?s' ! i = sized lstat (candidates ! i)"
    proof -
      fix i assume i: "i < taken s"
      show "(\<exists>v < length (workers ?s'). workers ?s' ! v = Summing i) \<or>
             results ?s' ! i = sized lstat (candidates ! i)"
      proof (cases "i = idx")
        case True
        with assms(4) d(2) show ?thesis by simp
      next
        case False
        from d(8)[OF i] show ?thesis
        proof
          assume "\<exists>v < length (workers s). workers s ! v = Summing i"
          then obtain v where v: "v < length (workers s)" "workers s ! v = Summing i" by blast
          with assms(3) False have "v \<noteq> w" by auto
          with v show ?thesis by (auto intro!: exI[of _ v])
        next
          assume "results s ! i = sized lstat (candidates ! i)"
          with False show ?thesis by simp
        qed
      qed
    qed
    show "group_err ?s' \<noteq> None \<Longrightarrow> ctx_err ?s' \<noteq> None" using d(9) by simp
  qed
qed

lemma inv_exit:
  assumes "calc_inv lstat candidates s" "w < length (workers s)" "workers s ! w = AtSelect"
      and "ge \<noteq> None \<Longrightarrow> ctx_err s \<noteq> None"
  shows "calc_inv lstat candidates (s\<lparr>workers := (workers s)[w := Returned r], group_err := ge\<rparr>)"
proof -
  let ?s' = "s\<lparr>workers := (workers s)[w := Returned r], group_err := ge\<rparr>"
  note d = calc_invD[OF assms(1)]
  have t: "taken ?s' = taken s" by (simp add: taken_def)
  have f: "length (filter is_summing ((workers s)[w := Returned r]))
      = length (filter is_summing (workers s))"
    using filter_update_length[OF assms(2), of is_summing "Returned r"] assms(3) by simp
  show ?thesis
  proof (rule calc_invI; (simp only: t)?)
    show "sent ?s' \<le> length candidates" using d(1) by simp
    show "length (results ?s') = length candidates" using d(2) by simp
    show "length (jobs ?s') \<le> sent ?s'" using d(3) by simp
    show "[taken s ..< sent ?s'] = jobs ?s'" using d(4) by simp
    show "bar ?s' + length (filter is_summing (workers ?s')) = taken s"
      using d(5) f by simp
    show "\<And>v i. v < length (workers ?s') \<Longrightarrow> workers ?s' ! v = Summing i \<Longrightarrow> i < taken s"
    proof -
      fix v i assume a: "v < length (workers ?s')" "workers ?s' ! v = Summing i"
      with assms(2) have "v \<noteq> w" by auto
      with a d(6)[of v i] show "i < taken s" by simp
    qed
    show "\<And>v v' i. v < length (workers ?s') \<Longrightarrow> v' < length (workers ?s') \<Longrightarrow>
             workers ?s' ! v = Summing i \<Longrightarrow> workers ?s' ! v' = Summing i \<Longrightarrow> v' = v"
    proof -
      fix v v' i
      assume a: "v < length (workers ?s')" "v' < length (workers ?s')"
        "workers ?s' ! v = Summing i" "workers ?s' ! v' = Summing i"
      with assms(2) have "v \<noteq> w" "v' \<noteq> w" by auto
      with a d(7)[of v v' i] show "v' = v" by simp
    qed
    show "\<And>i. i < taken s \<Longrightarrow> (\<exists>v < length (workers ?s'). workers ?s' ! v = Summing i) \<or>
             results ?s' ! i = sized lstat (candidates ! i)"
    proof -
      fix i assume i: "i < taken s"
      from d(8)[OF i]
      show "(\<exists>v < length (workers ?s'). workers ?s' ! v = Summing i) \<or>
             results ?s' ! i = sized lstat (candidates ! i)"
      proof
        assume "\<exists>v < length (workers s). workers s ! v = Summing i"
        then obtain v where v: "v < length (workers s)" "workers s ! v = Summing i" by blast
        with assms(3) have "v \<noteq> w" by auto
        with v show ?thesis by (auto intro!: exI[of _ v])
      next
        assume "results s ! i = sized lstat (candidates ! i)"
        then show ?thesis by simp
      qed
    qed
    show "group_err ?s' \<noteq> None \<Longrightarrow> ctx_err ?s' \<noteq> None" using assms(4) by simp
  qed
qed

lemma calc_inv_step:
  assumes "calc_step lstat candidates s s'" "calc_inv lstat candidates s"
  shows "calc_inv lstat candidates s'"
  using assms
proof (induction rule: calc_step.induct)
  case (cancel s e)
  then show ?case by (simp add: inv_cancel)
next
  case (send s)
  then show ?case by (simp add: inv_send)
next
  case (sender_stop s e)
  then show ?case by (simp add: inv_close)
next
  case (sender_end s)
  then show ?case by (simp add: inv_close)
next
  case (receive w s idx rest)
  then show ?case by (simp add: inv_receive)
next
  case (complete w s idx)
  then show ?case by (simp add: inv_complete)
next
  case (closed_exit w s)
  have "calc_inv lstat candidates
      (s\<lparr>workers := (workers s)[w := Returned None], group_err := group_err s\<rparr>)"
    using closed_exit calc_invD(9)[OF closed_exit(5)] by (intro inv_exit) auto
  then show ?case by simp
next
  case (ctx_exit w s e)
  then show ?case by (intro inv_exit) auto
qed

lemma calc_inv_steps:
  assumes "calc_steps lstat candidates s s'" "calc_inv lstat candidates s"
  shows "calc_inv lstat candidates s'"
  using assms unfolding calc_steps_def
  by (induction rule: rtranclp_induct) (auto intro: calc_inv_step)

lemma calc_inv_reachable:
  "calc_steps lstat candidates (calc_init W ctx0 candidates) s \<Longrightarrow> calc_inv lstat candidates s"
  by (rule calc_inv_steps[OF _ calc_inv_init])

lemma no_summing:
  "list_all has_returned ws \<Longrightarrow> length (filter is_summing ws) = 0"
  by (induction ws) (auto elim: has_returned.elims)

lemma returned_results:
  assumes "calc_inv lstat candidates s" "waits_over candidates s"
  shows "results s = map (sized lstat) candidates"
proof -
  note d = calc_invD[OF assms(1)]
  have ns: "length (filter is_summing (workers s)) = 0"
    using assms(2) by (simp add: waits_over_def no_summing)
  with d(5) assms(2) have t: "taken s = length candidates"
    by (simp add: waits_over_def)
  have "results s ! i = map (sized lstat) candidates ! i" if "i < length candidates" for i
  proof -
    from that t have "i < taken s" by simp
    from d(8)[OF this] show ?thesis
    proof
      assume "\<exists>v < length (workers s). workers s ! v = Summing i"
      then obtain v where v: "v < length (workers s)" "workers s ! v = Summing i" by blast
      from v(1) have "workers s ! v \<in> set (workers s)" by (rule nth_mem)
      with assms(2) have "has_returned (workers s ! v)"
        by (simp add: waits_over_def list_all_iff)
      with v(2) show ?thesis by simp
    next
      assume "results s ! i = sized lstat (candidates ! i)"
      with that show ?thesis by simp
    qed
  qed
  with d(2) show ?thesis by (simp add: list_eq_iff_nth_eq)
qed

lemma CalculateSizes_results:
  assumes "CalculateSizes W lstat ctx0 candidates (Inr res) ctx1"
  shows "res = map (sized lstat) candidates"
  using assms
proof (cases rule: CalculateSizes.cases)
  case no_candidates
  then show ?thesis by simp
next
  case (ran s)
  from calc_inv_reachable[OF ran(4)] have inv: "calc_inv lstat candidates s" .
  from ran(1) have "res = results s"
    by (auto simp: return_value_def split: option.splits)
  with returned_results[OF inv ran(5)] show ?thesis by simp
qed

lemma CalculateSizes_quiet:
  assumes "CalculateSizes W lstat ctx0 candidates ret None"
  shows "\<exists>res. ret = Inr res"
  using assms
proof (cases rule: CalculateSizes.cases)
  case no_candidates
  then show ?thesis by simp
next
  case (ran s)
  from calc_inv_reachable[OF ran(4)] have inv: "calc_inv lstat candidates s" .
  from calc_invD(9)[OF inv] ran(2) have "group_err s = None"
    by (cases "group_err s") simp_all
  with ran(1) show ?thesis by (simp add: return_value_def)
qed

subsection \<open>The size calculation: executions\<close>

lemma steps_refl: "calc_steps lstat candidates s s"
  by (simp add: calc_steps_def)

lemma steps_snoc:
  "calc_steps lstat candidates a b \<Longrightarrow> calc_step lstat candidates b c \<Longrightarrow>
     calc_steps lstat candidates a c"
  unfolding calc_steps_def by (rule rtranclp.rtrancl_into_rtrancl)

lemma steps_trans:
  "calc_steps lstat candidates a b \<Longrightarrow> calc_steps lstat candidates b c \<Longrightarrow>
     calc_steps lstat candidates a c"
  unfolding calc_steps_def by (rule rtranclp_trans)

lemma example_run:
  "CalculateSizes 2 size_lstat None [cand_a, cand_b]
     (Inr [sized size_lstat cand_a, sized size_lstat cand_b]) None"
proof -
  let ?C = "[cand_a, cand_b]"
  let ?L = "size_lstat"
  let ?z = "zero_Candidate"
  let ?a = "sized size_lstat cand_a"
  let ?b = "sized size_lstat cand_b"
  let ?s0 = "\<lparr>sent = 0, jobs_closed = False, jobs = [], workers = [AtSelect, AtSelect],
     results = [?z, ?z], bar = 0, ctx_err = None, group_err = None\<rparr>"
  let ?s1 = "\<lparr>sent = 1, jobs_closed = False, jobs = [0], workers = [AtSelect, AtSelect],
     results = [?z, ?z], bar = 0, ctx_err = None, group_err = None\<rparr>"
  let ?s2 = "\<lparr>sent = 2, jobs_closed = False, jobs = [0, 1], workers = [AtSelect, AtSelect],
     results = [?z, ?z], bar = 0, ctx_err = None, group_err = None\<rparr>"
  let ?s3 = "\<lparr>sent = 2, jobs_closed = False, jobs = [1], workers = [Summing 0, AtSelect],
     results = [?z, ?z], bar = 0, ctx_err = None, group_err = None\<rparr>"
  let ?s4 = "\<lparr>sent = 2, jobs_closed = False, jobs = [], workers = [Summing 0, Summing 1],
     results = [?z, ?z], bar = 0, ctx_err = None, group_err = None\<rparr>"
  let ?s5 = "\<lparr>sent = 2, jobs_closed = False, jobs = [], workers = [Summing 0, AtSelect],
     results = [?z, ?b], bar = 1, ctx_err = None, group_err = None\<rparr>"
  let ?s6 = "\<lparr>sent = 2, jobs_closed = False, jobs = [], workers = [AtSelect, AtSelect],
     results = [?a, ?b], bar = 2, ctx_err = None, group_err = None\<rparr>"
  let ?s7 = "\<lparr>sent = 2, jobs_closed = True, jobs = [], workers = [AtSelect, AtSelect],
     results = [?a, ?b], bar = 2, ctx_err = None, group_err = None\<rparr>"
  let ?s8 = "\<lparr>sent = 2, jobs_closed = True, jobs = [], workers = [Returned None, AtSelect],
     results = [?a, ?b], bar = 2, ctx_err = None, group_err = None\<rparr>"
  let ?s9 = "\<lparr>sent = 2, jobs_closed = True, jobs = [], workers = [Returned None, Returned None],
     results = [?a, ?b], bar = 2, ctx_err = None, group_err = None\<rparr>"
  have i: "calc_init 2 None ?C = ?s0"
    by (simp add: calc_init_def numeral_2_eq_2)
  have 1: "calc_step ?L ?C ?s0 ?s1"
    using calc_step.send[where s = ?s0 and candidates = ?C and lstat = ?L] by (simp add: numeral_2_eq_2)
  have 2: "calc_step ?L ?C ?s1 ?s2"
    using calc_step.send[where s = ?s1 and candidates = ?C and lstat = ?L] by (simp add: numeral_2_eq_2)
  have 3: "calc_step ?L ?C ?s2 ?s3"
    using calc_step.receive[where s = ?s2 and w = 0 and idx = 0 and rest = "[1]"
        and candidates = ?C and lstat = ?L] by (simp add: numeral_2_eq_2)
  have 4: "calc_step ?L ?C ?s3 ?s4"
    using calc_step.receive[where s = ?s3 and w = 1 and idx = 1 and rest = "[]"
        and candidates = ?C and lstat = ?L] by (simp add: numeral_2_eq_2)
  have 5: "calc_step ?L ?C ?s4 ?s5"
    using calc_step.complete[where s = ?s4 and w = 1 and idx = 1
        and candidates = ?C and lstat = ?L] by (simp add: numeral_2_eq_2)
  have 6: "calc_step ?L ?C ?s5 ?s6"
    using calc_step.complete[where s = ?s5 and w = 0 and idx = 0
        and candidates = ?C and lstat = ?L] by (simp add: numeral_2_eq_2)
  have 7: "calc_step ?L ?C ?s6 ?s7"
    using calc_step.sender_end[where s = ?s6 and candidates = ?C and lstat = ?L] by (simp add: numeral_2_eq_2)
  have 8: "calc_step ?L ?C ?s7 ?s8"
    using calc_step.closed_exit[where s = ?s7 and w = 0 and candidates = ?C and lstat = ?L]
    by (simp add: numeral_2_eq_2)
  have 9: "calc_step ?L ?C ?s8 ?s9"
    using calc_step.closed_exit[where s = ?s8 and w = 1 and candidates = ?C and lstat = ?L]
    by (simp add: numeral_2_eq_2)
  have "calc_steps ?L ?C ?s0 ?s9"
    by (intro steps_snoc[OF _ 9] steps_snoc[OF _ 8] steps_snoc[OF _ 7] steps_snoc[OF _ 6]
        steps_snoc[OF _ 5] steps_snoc[OF _ 4] steps_snoc[OF _ 3] steps_snoc[OF _ 2]
        steps_snoc[OF _ 1] steps_refl)
  then have run: "calc_steps ?L ?C (calc_init 2 None ?C) ?s9" by (simp only: i)
  have w: "waits_over ?C ?s9" by (simp add: waits_over_def numeral_2_eq_2)
  from CalculateSizes.ran[OF _ run w] show ?thesis
    by (simp add: return_value_def)
qed

lemma sized_cand_a: "sized size_lstat cand_a = cand_a\<lparr>SizeBytes := 3072\<rparr>"
  by code_simp

lemma size_cand_b: "calculateDirectorySize size_lstat (Path cand_b) = (1024, Some EIO)"
  by code_simp

lemma weight_update:
  "w < length ws \<Longrightarrow>
     sum_list (map worker_weight (ws[w := x])) + worker_weight (ws ! w)
       = sum_list (map worker_weight ws) + worker_weight x"
proof (induction ws arbitrary: w)
  case Nil
  then show ?case by simp
next
  case (Cons a ws)
  then show ?case by (cases w) auto
qed

lemma calc_step_measure:
  assumes "calc_step lstat candidates s s'"
  shows "calc_measure candidates s' < calc_measure candidates s"
  using assms
proof (induction rule: calc_step.induct)
  case (cancel s e)
  then show ?case by (simp add: calc_measure_def)
next
  case (send s)
  then show ?case by (simp add: calc_measure_def)
next
  case (sender_stop s e)
  then show ?case by (simp add: calc_measure_def)
next
  case (sender_end s)
  then show ?case by (simp add: calc_measure_def)
next
  case (receive w s idx rest)
  from weight_update[OF receive(1), of "Summing idx"] receive(2,3)
  show ?case by (simp add: calc_measure_def)
next
  case (complete w s idx)
  from weight_update[OF complete(1), of AtSelect] complete(2)
  show ?case by (simp add: calc_measure_def)
next
  case (closed_exit w s)
  from weight_update[OF closed_exit(1), of "Returned None"] closed_exit(2)
  show ?case by (simp add: calc_measure_def)
next
  case (ctx_exit w s e)
  from weight_update[OF ctx_exit(1), of "Returned (Some e)"] ctx_exit(2)
  show ?case by (simp add: calc_measure_def)
qed

lemma calc_step_workers_length:
  "calc_step lstat candidates s s' \<Longrightarrow> length (workers s') = length (workers s)"
  by (induction rule: calc_step.induct) simp_all

lemma worker_cases:
  "(\<exists>w < length ws. ws ! w = AtSelect) \<or> (\<exists>w idx. w < length ws \<and> ws ! w = Summing idx)
     \<or> list_all has_returned ws"
proof (cases "list_all has_returned ws")
  case True
  then show ?thesis by simp
next
  case False
  then obtain x where x: "x \<in> set ws" "\<not> has_returned x"
    by (auto simp: list_all_iff)
  then obtain w where w: "w < length ws" "ws ! w = x"
    by (auto simp: in_set_conv_nth)
  with x(2) show ?thesis by (cases x) auto
qed

lemma list_ex_update:
  "list_ex P (xs[w := x]) \<Longrightarrow> P x \<or> list_ex P xs"
proof (induction xs arbitrary: w)
  case Nil
  then show ?case by simp
next
  case (Cons a xs)
  then show ?case by (cases w) auto
qed

lemma quiet_progress:
  assumes inv: "calc_inv lstat candidates s" and q: "quiet_inv candidates s"
      and ne: "workers s \<noteq> []" and nw: "\<not> waits_over candidates s"
  shows "\<exists>s'. calc_step lstat candidates s s' \<and> quiet_inv candidates s'"
proof -
  note d = calc_invD[OF inv]
  from q have ctx: "ctx_err s = None"
    and cl: "jobs_closed s \<Longrightarrow> sent s = length candidates"
    and rt: "list_ex has_returned (workers s) \<Longrightarrow> jobs_closed s \<and> jobs s = []"
    by (simp_all add: quiet_inv_def)
  show ?thesis
  proof (cases "jobs_closed s")
    case False
    then have nr: "\<not> list_ex has_returned (workers s)" using rt by blast
    show ?thesis
    proof (cases "sent s < length candidates")
      case True
      let ?s' = "s\<lparr>jobs := jobs s @ [sent s], sent := Suc (sent s)\<rparr>"
      have "calc_step lstat candidates s ?s'" using False True by (rule calc_step.send)
      moreover have "quiet_inv candidates ?s'"
        using ctx False nr by (simp add: quiet_inv_def)
      ultimately show ?thesis by blast
    next
      case f: False
      with d(1) have e: "sent s = length candidates" by simp
      let ?s' = "s\<lparr>jobs_closed := True\<rparr>"
      have "calc_step lstat candidates s ?s'" using False e by (rule calc_step.sender_end)
      moreover have "quiet_inv candidates ?s'"
        using ctx e nr by (simp add: quiet_inv_def)
      ultimately show ?thesis by blast
    qed
  next
    case True
    from worker_cases[of "workers s"] show ?thesis
    proof (elim disjE exE conjE)
      fix w assume w: "w < length (workers s)" "workers s ! w = AtSelect"
      show ?thesis
      proof (cases "jobs s")
        case Nil
        let ?s' = "s\<lparr>workers := (workers s)[w := Returned None]\<rparr>"
        have "calc_step lstat candidates s ?s'"
          using w Nil True by (rule calc_step.closed_exit)
        moreover have "quiet_inv candidates ?s'"
          using ctx True cl Nil by (simp add: quiet_inv_def)
        ultimately show ?thesis by blast
      next
        case (Cons idx rest)
        let ?s' = "s\<lparr>jobs := rest, workers := (workers s)[w := Summing idx]\<rparr>"
        have "calc_step lstat candidates s ?s'"
          using w Cons by (rule calc_step.receive)
        moreover have "\<not> list_ex has_returned ((workers s)[w := Summing idx])"
          using list_ex_update[of has_returned "workers s" w "Summing idx"] rt Cons by auto
        then have "quiet_inv candidates ?s'"
          using ctx True cl by (simp add: quiet_inv_def)
        ultimately show ?thesis by blast
      qed
    next
      fix w idx assume w: "w < length (workers s)" "workers s ! w = Summing idx"
      from d(6)[OF w] have "idx < taken s" .
      also have "taken s \<le> sent s" by (simp add: taken_def)
      finally have i: "idx < length candidates" using d(1) by simp
      let ?s' = "s\<lparr>results := (results s)[idx := sized lstat (candidates ! idx)],
          bar := Suc (bar s), workers := (workers s)[w := AtSelect]\<rparr>"
      have "calc_step lstat candidates s ?s'"
        using w i by (rule calc_step.complete)
      moreover have "list_ex has_returned ((workers s)[w := AtSelect]) \<Longrightarrow>
          list_ex has_returned (workers s)"
        using list_ex_update[of has_returned "workers s" w AtSelect] by auto
      then have "quiet_inv candidates ?s'"
        using ctx True cl rt by (auto simp: quiet_inv_def)
      ultimately show ?thesis by blast
    next
      assume all: "list_all has_returned (workers s)"
      from ne obtain x xs where "workers s = x # xs" by (cases "workers s") auto
      with all have "list_ex has_returned (workers s)" by simp
      with rt have j: "jobs s = []" by simp
      then have "taken s = sent s" by (simp add: taken_def)
      with cl True have "taken s = length candidates" by simp
      with d(5) no_summing[OF all] have "bar s = length candidates" by simp
      with all nw show ?thesis by (simp add: waits_over_def)
    qed
  qed
qed

lemma quiet_run_exists:
  "calc_inv lstat candidates s \<Longrightarrow> quiet_inv candidates s \<Longrightarrow> workers s \<noteq> [] \<Longrightarrow>
     \<exists>s'. calc_steps lstat candidates s s' \<and> waits_over candidates s' \<and> ctx_err s' = None"
proof (induction "calc_measure candidates s" arbitrary: s rule: less_induct)
  case less
  show ?case
  proof (cases "waits_over candidates s")
    case True
    with less.prems(2) show ?thesis
      by (auto simp: quiet_inv_def intro: steps_refl)
  next
    case False
    from quiet_progress[OF less.prems(1,2,3) False]
    obtain s1 where s1: "calc_step lstat candidates s s1" "quiet_inv candidates s1" by blast
    have "calc_measure candidates s1 < calc_measure candidates s"
      by (rule calc_step_measure[OF s1(1)])
    moreover have "calc_inv lstat candidates s1"
      by (rule calc_inv_step[OF s1(1) less.prems(1)])
    moreover have "workers s1 \<noteq> []"
      using calc_step_workers_length[OF s1(1)] less.prems(3) by auto
    ultimately obtain s' where s': "calc_steps lstat candidates s1 s'"
      "waits_over candidates s'" "ctx_err s' = None"
      using less.hyps[of s1] s1(2) by blast
    have "calc_steps lstat candidates s s1"
      by (rule steps_snoc[OF steps_refl s1(1)])
    from steps_trans[OF this s'(1)] s'(2,3) show ?thesis by blast
  qed
qed

lemma CalculateSizes_returns_when_quiet:
  assumes "0 < W"
  shows "\<exists>res. CalculateSizes W lstat None candidates (Inr res) None"
proof (cases "length candidates = 0")
  case True
  then show ?thesis by (blast intro: CalculateSizes.no_candidates)
next
  case False
  have "quiet_inv candidates (calc_init W None candidates)"
    using assms False by (simp add: quiet_inv_def calc_init_def list_ex_iff)
  moreover have "workers (calc_init W None candidates) \<noteq> []"
    using assms by (simp add: calc_init_def)
  ultimately obtain s where s: "calc_steps lstat candidates (calc_init W None candidates) s"
    "waits_over candidates s" "ctx_err s = None"
    using quiet_run_exists[OF calc_inv_init] by blast
  from CalculateSizes.ran[OF False s(1,2)] s(3)
  have r: "CalculateSizes W lstat None candidates (return_value s) None" by simp
  from CalculateSizes_quiet[OF r] obtain res where "return_value s = Inr res" by blast
  with r show ?thesis by auto
qed

lemma NewCalculator_positive: "0 < NewCalculator concurrency"
  by (simp add: NewCalculator_def)

lemma returned_stay:
  assumes "calc_step lstat candidates s s'" "list_all has_returned (workers s)"
  shows "list_all has_returned (workers s') \<and> bar s' = bar s"
  using assms
proof (induction rule: calc_step.induct)
  case (receive w s idx rest)
  have "has_returned (workers s ! w)"
    using receive.prems receive.hyps(1) unfolding list_all_length by blast
  with receive.hyps(2) show ?case by simp
next
  case (complete w s idx)
  have "has_returned (workers s ! w)"
    using complete.prems complete.hyps(1) unfolding list_all_length by blast
  with complete.hyps(2) show ?case by simp
next
  case (closed_exit w s)
  have "has_returned (workers s ! w)"
    using closed_exit.prems closed_exit.hyps(1) unfolding list_all_length by blast
  with closed_exit.hyps(2) show ?case by simp
next
  case (ctx_exit w s e)
  have "has_returned (workers s ! w)"
    using ctx_exit.prems ctx_exit.hyps(1) unfolding list_all_length by blast
  with ctx_exit.hyps(2) show ?case by simp
qed simp_all

lemma returned_stay_steps:
  assumes "calc_steps lstat candidates s s'" "list_all has_returned (workers s)"
  shows "list_all has_returned (workers s') \<and> bar s' = bar s"
  using assms unfolding calc_steps_def
proof (induction rule: rtranclp_induct)
  case base
  then show ?case by simp
next
  case (step y z)
  with returned_stay[OF step(2)] show ?case by simp
qed

subsection \<open>The size calculation: claims\<close>

text \<open>
  C6. Whatever the interleaving of sender and workers, and in whatever order the workers
  finish, a call that returns without error returns a slice of the length of its input
  in which every slot holds the path of the candidate at the same index.
\<close>

theorem CalculateSizes_keeps_order:
  assumes "CalculateSizes W lstat ctx0 candidates (Inr res) ctx1"
  shows "length res = length candidates \<and>
         (\<forall>i < length candidates. Path (res ! i) = Path (candidates ! i))"
  using CalculateSizes_results[OF assms] by (simp add: sized_def)

theorem CalculateSizes_keeps_order_witness:
  "CalculateSizes 2 size_lstat None [cand_a, cand_b]
     (Inr [sized size_lstat cand_a, sized size_lstat cand_b]) None
   \<and> length [sized size_lstat cand_a, sized size_lstat cand_b] = length [cand_a, cand_b]
   \<and> Path (sized size_lstat cand_a) = Path cand_a
   \<and> Path (sized size_lstat cand_b) = Path cand_b"
proof -
  let ?res = "[sized size_lstat cand_a, sized size_lstat cand_b]"
  from CalculateSizes_keeps_order [OF example_run]
  have "length ?res = length [cand_a, cand_b]"
    and p: "\<forall>i < length [cand_a, cand_b]. Path (?res ! i) = Path ([cand_a, cand_b] ! i)"
    by blast+
  from p [rule_format, of 0] p [rule_format, of 1]
  have "Path (sized size_lstat cand_a) = Path cand_a"
    and "Path (sized size_lstat cand_b) = Path cand_b"
    by simp_all
  with example_run show ?thesis by simp
qed

text \<open>
  C9. In the slice a call returns without error, the slot at index \<open>i\<close> is the candidate
  at index \<open>i\<close> with nothing but its SizeBytes replaced, by the sum computed for its
  path. Each index is sent once, is in the hands of at most one worker (\<open>calc_inv\<close>),
  and the number of slots written is the number of candidates when the call returns.
\<close>

theorem CalculateSizes_only_sets_SizeBytes:
  assumes "CalculateSizes W lstat ctx0 candidates (Inr res) ctx1"
      and "i < length candidates"
  shows "Path (res ! i) = Path (candidates ! i) \<and>
         Reason (res ! i) = Reason (candidates ! i) \<and>
         NewestMTime (res ! i) = NewestMTime (candidates ! i) \<and>
         SizeBytes (res ! i) = fst (calculateDirectorySize lstat (Path (candidates ! i))) \<and>
         res ! i = (candidates ! i)\<lparr>SizeBytes := SizeBytes (res ! i)\<rparr>"
  using CalculateSizes_results[OF assms(1)] assms(2) by (simp add: sized_def)

theorem CalculateSizes_only_sets_SizeBytes_witness:
  "CalculateSizes 2 size_lstat None [cand_a, cand_b]
     (Inr [sized size_lstat cand_a, sized size_lstat cand_b]) None
   \<and> Path (sized size_lstat cand_a) = Path cand_a
   \<and> Reason (sized size_lstat cand_a) = Reason cand_a
   \<and> NewestMTime (sized size_lstat cand_a) = NewestMTime cand_a
   \<and> SizeBytes (sized size_lstat cand_a) = 3072
   \<and> SizeBytes cand_a = 0"
proof -
  have s: "fst (calculateDirectorySize size_lstat (Path cand_a)) = 3072"
    by code_simp
  have z: "SizeBytes cand_a = 0"
    by (simp add: cand_a_def test_candidate_def)
  from CalculateSizes_only_sets_SizeBytes [OF example_run, of 0] s z example_run
  show ?thesis by simp
qed

text \<open>
  C10. Let the sum of the subtree of candidate \<open>i\<close> stop with an error that is neither a
  permission error nor a not-exist error, \<open>partial\<close> being the total reached by then
  (\<open>size_walk_stops_at_failure\<close>). As
  long as the context is not done, the call does return (\<open>calc_step_measure\<close>: every
  execution is finite; \<open>quiet_progress\<close>: none gets stuck), each return is without
  error, and the SizeBytes of that candidate is \<open>partial\<close>.
\<close>

theorem CalculateSizes_ignores_walk_error:
  assumes "0 < W"
      and "i < length candidates"
      and "calculateDirectorySize lstat (Path (candidates ! i)) = (partial, Some e)"
      and "\<not> os_IsPermission e" "\<not> os_IsNotExist e"
  shows "(\<exists>res. CalculateSizes W lstat None candidates (Inr res) None) \<and>
         (\<forall>ret ctx0. CalculateSizes W lstat ctx0 candidates ret None \<longrightarrow>
            (\<exists>res. ret = Inr res \<and> SizeBytes (res ! i) = partial))"
proof (intro conjI allI impI)
  show "\<exists>res. CalculateSizes W lstat None candidates (Inr res) None"
    by (rule CalculateSizes_returns_when_quiet[OF assms(1)])
next
  fix ret ctx0 assume c: "CalculateSizes W lstat ctx0 candidates ret None"
  from CalculateSizes_quiet[OF c] obtain res where r: "ret = Inr res" by blast
  with c have "CalculateSizes W lstat ctx0 candidates (Inr res) None" by simp
  from CalculateSizes_results[OF this] assms(2,3) have "SizeBytes (res ! i) = partial"
    by (simp add: sized_def)
  with r show "\<exists>res. ret = Inr res \<and> SizeBytes (res ! i) = partial" by blast
qed

theorem CalculateSizes_ignores_walk_error_witness:
  "calculateDirectorySize size_lstat (Path cand_b) = (1024, Some EIO)
   \<and> \<not> os_IsPermission EIO \<and> \<not> os_IsNotExist EIO
   \<and> CalculateSizes 2 size_lstat None [cand_a, cand_b]
       (Inr [sized size_lstat cand_a, sized size_lstat cand_b]) None
   \<and> SizeBytes (sized size_lstat cand_b) = 1024"
proof -
  have w: "calculateDirectorySize size_lstat (Path ([cand_a, cand_b] ! 1)) = (1024, Some EIO)"
    using size_cand_b by simp
  have p: "\<not> os_IsPermission EIO" and n: "\<not> os_IsNotExist EIO"
    by (simp_all add: os_IsPermission_def os_IsNotExist_def)
  have "(0::nat) < 2" and "(1::nat) < length [cand_a, cand_b]" by simp_all
  from CalculateSizes_ignores_walk_error [OF this w p n]
  have "\<forall>ret ctx0. CalculateSizes 2 size_lstat ctx0 [cand_a, cand_b] ret None \<longrightarrow>
            (\<exists>res. ret = Inr res \<and> SizeBytes (res ! 1) = 1024)"
    by (rule conjunct2)
  from this [rule_format, OF example_run]
  have "SizeBytes (sized size_lstat cand_b) = 1024" by simp
  with size_cand_b p n example_run show ?thesis by simp
qed

text \<open>
  C5. The claim fails on two executions. With one candidate and one worker: the deadline
  passes after the index is sent and before anything is summed; the worker's
  \<^verbatim>\<open>select\<close> still takes the job and then the closed channel, and the call returns the
  summed slice and no error. With two candidates and one worker: the deadline passes
  at once and the worker returns the error of the context; the group has its error,
  but the bar stays at 0 of 2 and the wait for it never ends, so the call does not
  return at all.
\<close>

theorem cancellation_unreported_or_never_returning:
  "calc_steps size_lstat [cand_a] (calc_init 1 None [cand_a])
     \<lparr>sent = 1, jobs_closed = True, jobs = [0], workers = [AtSelect],
      results = [zero_Candidate], bar = 0, ctx_err = Some DeadlineExceeded, group_err = None\<rparr>
   \<and> CalculateSizes 1 size_lstat None [cand_a] (Inr [sized size_lstat cand_a])
       (Some DeadlineExceeded)
   \<and> calc_steps size_lstat [cand_a, cand_b] (calc_init 1 None [cand_a, cand_b])
       \<lparr>sent = 0, jobs_closed = False, jobs = [], workers = [Returned (Some DeadlineExceeded)],
        results = [zero_Candidate, zero_Candidate], bar = 0, ctx_err = Some DeadlineExceeded,
        group_err = Some DeadlineExceeded\<rparr>
   \<and> \<not> (\<exists>s'. calc_steps size_lstat [cand_a, cand_b]
        \<lparr>sent = 0, jobs_closed = False, jobs = [], workers = [Returned (Some DeadlineExceeded)],
         results = [zero_Candidate, zero_Candidate], bar = 0, ctx_err = Some DeadlineExceeded,
         group_err = Some DeadlineExceeded\<rparr> s'
        \<and> waits_over [cand_a, cand_b] s')"
proof -
  let ?L = "size_lstat"
  let ?z = "zero_Candidate"
  let ?a = "sized size_lstat cand_a"
  let ?T = "Some DeadlineExceeded"
  txt \<open>One candidate: the deadline passes before the sum, yet the worker takes the job.\<close>
  let ?C = "[cand_a]"
  let ?s0 = "\<lparr>sent = 0, jobs_closed = False, jobs = [], workers = [AtSelect],
     results = [?z], bar = 0, ctx_err = None, group_err = None\<rparr>"
  let ?s1 = "\<lparr>sent = 1, jobs_closed = False, jobs = [0], workers = [AtSelect],
     results = [?z], bar = 0, ctx_err = None, group_err = None\<rparr>"
  let ?s2 = "\<lparr>sent = 1, jobs_closed = True, jobs = [0], workers = [AtSelect],
     results = [?z], bar = 0, ctx_err = None, group_err = None\<rparr>"
  let ?s3 = "\<lparr>sent = 1, jobs_closed = True, jobs = [0], workers = [AtSelect],
     results = [?z], bar = 0, ctx_err = ?T, group_err = None\<rparr>"
  let ?s4 = "\<lparr>sent = 1, jobs_closed = True, jobs = [], workers = [Summing 0],
     results = [?z], bar = 0, ctx_err = ?T, group_err = None\<rparr>"
  let ?s5 = "\<lparr>sent = 1, jobs_closed = True, jobs = [], workers = [AtSelect],
     results = [?a], bar = 1, ctx_err = ?T, group_err = None\<rparr>"
  let ?s6 = "\<lparr>sent = 1, jobs_closed = True, jobs = [], workers = [Returned None],
     results = [?a], bar = 1, ctx_err = ?T, group_err = None\<rparr>"
  have i: "calc_init 1 None ?C = ?s0" by (simp add: calc_init_def)
  have 1: "calc_step ?L ?C ?s0 ?s1"
    using calc_step.send[where s = ?s0 and candidates = ?C and lstat = ?L] by simp
  have 2: "calc_step ?L ?C ?s1 ?s2"
    using calc_step.sender_end[where s = ?s1 and candidates = ?C and lstat = ?L] by simp
  have 3: "calc_step ?L ?C ?s2 ?s3"
    using calc_step.cancel[where s = ?s2 and e = DeadlineExceeded and candidates = ?C
        and lstat = ?L] by simp
  have 4: "calc_step ?L ?C ?s3 ?s4"
    using calc_step.receive[where s = ?s3 and w = 0 and idx = 0 and rest = "[]"
        and candidates = ?C and lstat = ?L] by simp
  have 5: "calc_step ?L ?C ?s4 ?s5"
    using calc_step.complete[where s = ?s4 and w = 0 and idx = 0
        and candidates = ?C and lstat = ?L] by simp
  have 6: "calc_step ?L ?C ?s5 ?s6"
    using calc_step.closed_exit[where s = ?s5 and w = 0 and candidates = ?C and lstat = ?L]
    by simp
  have "calc_steps ?L ?C ?s0 ?s3"
    by (intro steps_snoc[OF _ 3] steps_snoc[OF _ 2] steps_snoc[OF _ 1] steps_refl)
  then have mid: "calc_steps ?L ?C (calc_init 1 None ?C) ?s3" by (simp only: i)
  have run: "calc_steps ?L ?C (calc_init 1 None ?C) ?s6"
    by (intro steps_snoc[OF _ 6] steps_snoc[OF _ 5] steps_snoc[OF _ 4] mid)
  have "waits_over ?C ?s6" by (simp add: waits_over_def)
  from CalculateSizes.ran[OF _ run this]
  have ret: "CalculateSizes 1 ?L None ?C (Inr [?a]) ?T"
    by (simp add: return_value_def)
  txt \<open>Two candidates: the worker returns on the done context and the bar stays short.\<close>
  let ?D = "[cand_a, cand_b]"
  let ?t0 = "\<lparr>sent = 0, jobs_closed = False, jobs = [], workers = [AtSelect],
     results = [?z, ?z], bar = 0, ctx_err = None, group_err = None\<rparr>"
  let ?t1 = "\<lparr>sent = 0, jobs_closed = False, jobs = [], workers = [AtSelect],
     results = [?z, ?z], bar = 0, ctx_err = ?T, group_err = None\<rparr>"
  let ?t2 = "\<lparr>sent = 0, jobs_closed = False, jobs = [], workers = [Returned ?T],
     results = [?z, ?z], bar = 0, ctx_err = ?T, group_err = ?T\<rparr>"
  have j: "calc_init 1 None ?D = ?t0" by (simp add: calc_init_def numeral_2_eq_2)
  have a: "calc_step ?L ?D ?t0 ?t1"
    using calc_step.cancel[where s = ?t0 and e = DeadlineExceeded and candidates = ?D
        and lstat = ?L] by simp
  have b: "calc_step ?L ?D ?t1 ?t2"
    using calc_step.ctx_exit[where s = ?t1 and w = 0 and e = DeadlineExceeded
        and candidates = ?D and lstat = ?L] by simp
  have "calc_steps ?L ?D ?t0 ?t2"
    by (intro steps_snoc[OF _ b] steps_snoc[OF _ a] steps_refl)
  then have stuck: "calc_steps ?L ?D (calc_init 1 None ?D) ?t2" by (simp only: j)
  have never: "\<not> (\<exists>s'. calc_steps ?L ?D ?t2 s' \<and> waits_over ?D s')"
  proof
    assume "\<exists>s'. calc_steps ?L ?D ?t2 s' \<and> waits_over ?D s'"
    then obtain s' where s': "calc_steps ?L ?D ?t2 s'" "waits_over ?D s'" by blast
    from returned_stay_steps[OF s'(1)] have "bar s' = 0" by simp
    with s'(2) show False by (simp add: waits_over_def)
  qed
  from mid ret stuck never show ?thesis by blast
qed

subsection \<open>Quarantine names\<close>

text \<open>
  C1. Two candidates with the same base name that are quarantined within one second get
  the same destination name: the name is the timestamp at second resolution and the
  base name, with no counter and no finer clock. Here the clock readings differ in their
  nanoseconds; the first directory is moved, the second move fails on the name already
  taken, and the second directory stays where it was.
\<close>

theorem quarantine_same_second_same_name:
  "quarantineCandidates (\<lambda>m. Some (''sidecar of '' @ OriginalPath m)) march_9 quarantine_cfg
     two_projects_candidates (two_projects_fs, 0)
   = (None,
      ([(''/'', Dir), (''/q'', Dir), (''/w'', Dir), (''/w/p1'', Dir),
        (''/q/20250309-140507-node_modules'', Dir),
        (''/q/20250309-140507-node_modules/a.js'', File ''1''),
        (''/w/p2'', Dir), (''/w/p2/node_modules'', Dir),
        (''/w/p2/node_modules/b.js'', File ''2''),
        (''/q/20250309-140507-node_modules.meta.json'', File ''sidecar of /w/p1/node_modules'')],
       3),
      [(''/q/20250309-140507-node_modules'', Quarantined),
       (''/q/20250309-140507-node_modules'', MoveWarning EEXIST)])"
  by code_simp

subsection \<open>Listing\<close>

lemma list_loop_set:
  "m \<in> set (list_loop unm t qdir files) \<longleftrightarrow>
     (\<exists>file \<in> set files. \<not> IsDir file \<and> strings_HasSuffix (Name file) ''.meta.json'' \<and>
        (\<exists>data. os_ReadFile t (filepath_Join [qdir, Name file]) = Inr data \<and> unm data = Some m))"
  by (induction files) (auto split: sum.splits option.splits)

text \<open>
  C3, as stated, fails: a sidecar whose subtree no longer exists at its QuarantinePath is
  listed all the same.
\<close>

theorem stale_sidecar_is_listed:
  "node_at stale_fs (QuarantinePath stale_meta) = None \<and>
   listQuarantinedItems (map_of [(''sidecar of /w/node_modules'', stale_meta)]) stale_fs ''/q''
     = Inr [stale_meta]"
  by code_simp

text \<open>
  C3, amended. When the quarantine directory can be read, the listing holds exactly the
  records parsed from its entries that are not directories, are named \<^verbatim>\<open>*.meta.json\<close>
  and can be read and parsed. Nothing else is looked at: whether anything exists at the
  QuarantinePath of a record plays no part.
\<close>

theorem listQuarantinedItems_lists_parsed_sidecars:
  assumes "os_ReadDir t qdir = Inr files"
  shows "\<exists>items. listQuarantinedItems unm t qdir = Inr items \<and>
     (\<forall>m. m \<in> set items \<longleftrightarrow>
        (\<exists>file \<in> set files. \<not> IsDir file \<and> strings_HasSuffix (Name file) ''.meta.json'' \<and>
           (\<exists>data. os_ReadFile t (filepath_Join [qdir, Name file]) = Inr data
              \<and> unm data = Some m)))"
  using assms by (simp add: listQuarantinedItems_def list_loop_set)

theorem listQuarantinedItems_lists_parsed_sidecars_witness:
  "os_ReadDir kept_fs ''/q'' =
     Inr [\<lparr>Name = ''20250309-140507-build'', IsDir = True\<rparr>,
          \<lparr>Name = ''20250309-140507-build.meta.json'', IsDir = False\<rparr>]
   \<and> (\<exists>items. listQuarantinedItems (map_of [(''sidecar of /w/build'', kept_meta)]) kept_fs ''/q''
          = Inr items \<and> kept_meta \<in> set items)"
proof -
  let ?files = "[\<lparr>Name = ''20250309-140507-build'', IsDir = True\<rparr>,
                 \<lparr>Name = ''20250309-140507-build.meta.json'', IsDir = False\<rparr>]"
  let ?unm = "map_of [(''sidecar of /w/build'', kept_meta)]"
  have rd: "os_ReadDir kept_fs ''/q'' = Inr ?files"
    by code_simp
  have suffix: "strings_HasSuffix ''20250309-140507-build.meta.json'' ''.meta.json''"
    by code_simp
  have data: "os_ReadFile kept_fs (filepath_Join [''/q'', ''20250309-140507-build.meta.json''])
      = Inr ''sidecar of /w/build''"
    by code_simp
  from listQuarantinedItems_lists_parsed_sidecars [OF rd, of ?unm]
  obtain items where items: "listQuarantinedItems ?unm kept_fs ''/q'' = Inr items"
    and mem: "\<And>m. m \<in> set items \<longleftrightarrow>
        (\<exists>file \<in> set ?files. \<not> IsDir file \<and> strings_HasSuffix (Name file) ''.meta.json'' \<and>
           (\<exists>data. os_ReadFile kept_fs (filepath_Join [''/q'', Name file]) = Inr data
              \<and> ?unm data = Some m))"
    by blast
  have "kept_meta \<in> set items"
    unfolding mem using suffix data by simp
  with rd items show ?thesis by blast
qed

subsection \<open>Restoring\<close>






text \<open>
  The other way in which a restore onto an existing path goes through: when the
  quarantined entry and the thing now at OriginalPath are both plain files, the rename
  replaces the existing file. The quarantine itself moves directories only.
\<close>

lemma runRestore_replaces_existing_file:
  "os_Lstat notes_fs (OriginalPath notes_meta) = Inr (''/w/notes'', File ''new'') \<and>
   runRestore (map_of [(''sidecar of /w/notes'', notes_meta)]) quarantine_cfg (Selected 0) notes_fs
     = (None, [(''/'', Dir), (''/q'', Dir), (''/w'', Dir), (''/w/notes'', File ''old'')])"
  by code_simp



end
